theory Spec2Isabelle
  imports Complex_Main "HOL-Library.Word" "HOL-Library.Log_Nat"
begin

section \<open>Data model of the resource monitor\<close>

text \<open>
  The program (src/main.cpp) samples host counters once per second and prints a
  dashboard. The four result structures are embedded as records; \<open>std::uint64_t\<close>
  and \<open>std::size_t\<close> are 64-bit words, so every addition, subtraction and
  multiplication below wraps modulo \<open>2 ^ 64\<close> as in the source.
\<close>

type_synonym u64 = "64 word"

record CpuSnapshot =
  idle_ticks :: u64
  total_ticks :: u64

record MemoryStatus =
  total_bytes :: u64
  available_bytes :: u64
  valid :: bool

record TaskSummary =
  total :: u64
  valid :: bool

text \<open>
  The three records share the field name \<open>valid\<close>, as the structures of the source
  do; it is written with the record's name in front where the record is not clear from
  the context.
\<close>

section \<open>Binary64 floating point\<close>

text \<open>
  \<open>double\<close> is IEEE 754 binary64 with the default rounding, to nearest with ties to
  even. A finite value is kept as the rational number it denotes; the sign of an
  infinity is \<open>True\<close> for minus. The zero of the model is \<open>+0.0\<close>: the program only
  divides values that come from unsigned integers and positive constants.

  \<open>round_half_even\<close> rounds a rational to the nearest integer, \<open>floor_log2\<close> is
  the binary exponent of a positive rational, and \<open>ulp_exponent\<close> the exponent of the
  last of the 53 bits of the significand (fixed at \<open>- 1074\<close> for subnormal numbers).
  \<open>round_double\<close> is the value every arithmetic operation delivers for the exact
  result \<open>x\<close>: the nearest representable number, or an infinity beyond the largest
  finite one.
\<close>

datatype double = Finite rat | Infinity bool | NaN

definition round_half_even :: "rat \<Rightarrow> int" where
  "round_half_even x =
     (let f = \<lfloor>x\<rfloor>; d = x - of_int f
      in if d < 1 / 2 then f else if 1 / 2 < d then f + 1 else if even f then f else f + 1)"

definition floor_log2 :: "rat \<Rightarrow> int" where
  "floor_log2 x =
     (let (p, q) = quotient_of x; e = bitlen p - bitlen q
      in if 2 powi e \<le> x then e else e - 1)"

definition ulp_exponent :: "rat \<Rightarrow> int" where
  "ulp_exponent x = max (floor_log2 \<bar>x\<bar>) (- 1022) - 52"

definition round_finite :: "rat \<Rightarrow> rat" where
  "round_finite x =
     (if x = 0 then 0
      else of_int (round_half_even (x / 2 powi ulp_exponent x)) * 2 powi ulp_exponent x)"

text \<open>
  The smallest power of two above every finite binary64 number, \<open>2 ^ 1024\<close>, written
  out so that it is compared and not computed.
\<close>

definition overflow_threshold :: rat where
  "overflow_threshold =
     179769313486231590772930519078902473361797697894230657273430081157732675805500963132708477322407536021120113879871393357658789768814416622492847430639474124377767893424865485276302219601246094119453082952085005768838150682342462881473913110540827237163350510684586298239947245938479716304835356329624224137216"

definition round_double :: "rat \<Rightarrow> double" where
  "round_double x =
     (let r = round_finite x
      in if overflow_threshold \<le> \<bar>r\<bar> then Infinity (x < 0) else Finite r)"

text \<open>\<open>static_cast<double>\<close> of a 64-bit unsigned integer.\<close>

definition double_of_u64 :: "u64 \<Rightarrow> double" where
  "double_of_u64 w = round_double (of_nat (unat w))"

fun double_mul :: "double \<Rightarrow> double \<Rightarrow> double" where
  "double_mul (Finite a) (Finite b) = round_double (a * b)"
| "double_mul (Finite a) (Infinity s) = (if a = 0 then NaN else Infinity (s \<noteq> (a < 0)))"
| "double_mul (Infinity s) (Finite b) = (if b = 0 then NaN else Infinity (s \<noteq> (b < 0)))"
| "double_mul (Infinity s) (Infinity t) = Infinity (s \<noteq> t)"
| "double_mul _ _ = NaN"

fun double_div :: "double \<Rightarrow> double \<Rightarrow> double" where
  "double_div (Finite a) (Finite b) =
     (if b = 0 then (if a = 0 then NaN else Infinity (a < 0)) else round_double (a / b))"
| "double_div (Finite a) (Infinity s) = Finite 0"
| "double_div (Infinity s) (Finite b) = Infinity (s \<noteq> (b < 0))"
| "double_div _ _ = NaN"

record LoadAverages =
  one :: double
  five :: double
  fifteen :: double
  valid :: bool

section \<open>CpuUsageCalculator\<close>

text \<open>
  \<open>compute_cpu_usage\<close> (main.cpp, lines 122-130). The three subtractions are unsigned
  64-bit subtractions and wrap; the quotient is \<open>(double(active) * 100.0) / double(total)\<close>,
  each operation rounded.
\<close>

definition compute_cpu_usage :: "CpuSnapshot \<Rightarrow> CpuSnapshot \<Rightarrow> double" where
  "compute_cpu_usage prev cur =
     (let idle_delta = idle_ticks cur - idle_ticks prev;
          total_delta = total_ticks cur - total_ticks prev
      in if total_delta = 0 then Finite 0
         else
           let active_delta = total_delta - idle_delta
           in double_div (double_mul (double_of_u64 active_delta) (Finite 100))
                (double_of_u64 total_delta))"

section \<open>Characters and decimal output\<close>

text \<open>
  \<open>operator<<\<close> on an unsigned integer writes its decimal digits without sign,
  padding or leading zeros; \<open>digit_char\<close> is the character of one digit.
\<close>

definition digit_char :: "nat \<Rightarrow> char" where
  "digit_char d = ''0123456789'' ! d"

fun dec :: "nat \<Rightarrow> string" where
  "dec n = (if n < 10 then [digit_char n] else dec (n div 10) @ [digit_char (n mod 10)])"

declare dec.simps [simp del]

text \<open>
  \<open>std::setw(2) << std::setfill('0')\<close> in front of an integer: the digits are
  padded on the left with the fill character up to the width and never cut.
\<close>

definition setw_fill :: "nat \<Rightarrow> char \<Rightarrow> string \<Rightarrow> string" where
  "setw_fill w c s = replicate (w - length s) c @ s"

section \<open>Formatter: durations\<close>

text \<open>
  \<open>format_uptime\<close> (main.cpp, lines 242-265). The source reassigns \<open>seconds\<close>
  twice (\<open>seconds %= 86400\<close>, then \<open>seconds %= 3600\<close>); the \<open>let\<close> chain keeps
  that order.
\<close>

definition format_uptime :: "u64 \<Rightarrow> string" where
  "format_uptime seconds =
     (if seconds < 60 then dec (unat seconds) @ ''s''
      else
        let days = seconds div 86400;
            seconds1 = seconds mod 86400;
            hours = seconds1 div 3600;
            seconds2 = seconds1 mod 3600;
            minutes = seconds2 div 60
        in (if days > 0
            then dec (unat days) @ '' day'' @ (if days > 1 then ''s'' else '''') @ '', ''
            else '''')
           @ setw_fill 2 (CHR ''0'') (dec (unat hours)) @ '':''
           @ setw_fill 2 (CHR ''0'') (dec (unat minutes)))"

text \<open>The two-digit rendering the specification asks for.\<close>

definition two_digits :: "nat \<Rightarrow> string" where
  "two_digits n = [digit_char (n div 10), digit_char (n mod 10)]"

text \<open>The day prefix the specification describes.\<close>

definition day_prefix :: "nat \<Rightarrow> string" where
  "day_prefix d =
     (if d = 0 then '''' else dec d @ (if d > 1 then '' days'' else '' day'') @ '', '')"

section \<open>Text input streams\<close>

text \<open>
  The samplers read the kernel's pseudo-files with \<open>std::ifstream\<close> and the formatted
  extraction operators. A stream is modelled by the characters that are still unread; a
  file that could not be opened is \<open>None\<close>. The classic locale is in force (the program
  never sets another one): white space is the six characters of \<open>isspace\<close>, digits are
  \<open>0\<close> to \<open>9\<close>.
\<close>

definition isspace :: "char \<Rightarrow> bool" where
  "isspace c \<longleftrightarrow> c \<in> set [CHR '' '', CHR 0x09, CHR 0x0A, CHR 0x0B, CHR 0x0C, CHR 0x0D]"

definition isdigit :: "char \<Rightarrow> bool" where
  "isdigit c \<longleftrightarrow> 48 \<le> (of_char c :: nat) \<and> (of_char c :: nat) \<le> 57"

definition digit_value :: "char \<Rightarrow> nat" where
  "digit_value c = of_char c - 48"

definition digits_value :: "string \<Rightarrow> nat" where
  "digits_value ds = foldl (\<lambda>n c. 10 * n + digit_value c) 0 ds"

text \<open>
  The outcome of one formatted extraction: the value and the rest of the stream, or a
  failure (\<open>failbit\<close>) together with the value the operator stored in the variable, if
  it stored one. After a failure every further extraction from the stream does nothing.
\<close>

datatype 'a extraction = Extracted 'a string | Failed "'a option"

text \<open>
  \<open>std::getline\<close>: the characters up to the first newline, which is consumed and not
  stored. It fails only when no character at all could be read.
\<close>

definition getline :: "string \<Rightarrow> string extraction" where
  "getline s =
     (if s = [] then Failed None
      else Extracted (takeWhile (\<lambda>c. c \<noteq> CHR 0x0A) s) (drop 1 (dropWhile (\<lambda>c. c \<noteq> CHR 0x0A) s)))"

text \<open>
  \<open>operator>>\<close> into a \<open>std::string\<close>: skips white space and takes the characters up
  to the next white space; it fails, leaving the string as it was, when the stream ends
  before a character is found.
\<close>

definition get_string :: "string \<Rightarrow> string extraction" where
  "get_string s =
     (let s1 = dropWhile isspace s
      in if s1 = [] then Failed None
         else Extracted (takeWhile (\<lambda>c. \<not> isspace c) s1) (dropWhile (\<lambda>c. \<not> isspace c) s1))"

text \<open>
  \<open>operator>>\<close> into a \<open>std::uint64_t\<close>: skips white space, accepts one sign and then
  decimal digits. Without a digit it stores 0 and fails; a value that does not fit is
  stored as the largest value and fails; a minus sign negates modulo \<open>2 ^ 64\<close>, as
  \<open>strtoull\<close> does.
\<close>

definition get_u64 :: "string \<Rightarrow> u64 extraction" where
  "get_u64 s =
     (let s1 = dropWhile isspace s
      in if s1 = [] then Failed None
         else
           let negative = (hd s1 = CHR ''-'');
               s2 = (if hd s1 = CHR ''-'' \<or> hd s1 = CHR ''+'' then tl s1 else s1);
               ds = takeWhile isdigit s2;
               n = digits_value ds
           in if ds = [] then Failed (Some 0)
              else if 2 ^ 64 \<le> n then Failed (Some (- 1))
              else Extracted (if negative then - of_nat n else of_nat n) (dropWhile isdigit s2))"

text \<open>The largest finite binary64 number.\<close>

definition max_double :: rat where
  "max_double = (2 ^ 53 - 1) * 2 ^ 971"

text \<open>
  \<open>operator>>\<close> into a \<open>double\<close>: skips white space and takes a sign, digits, a decimal
  point with digits and, after at least one digit, an exponent. The characters taken must
  form a complete number (as \<open>strtod\<close> reads it), otherwise 0 is stored and the
  extraction fails. \<open>decimal_value\<close> is the number the characters denote;
  \<open>store_double\<close> rounds it to binary64, and a number beyond the finite range is stored
  as the largest finite value and the extraction fails.
\<close>

definition decimal_value :: "bool \<Rightarrow> string \<Rightarrow> string \<Rightarrow> bool \<Rightarrow> string \<Rightarrow> rat" where
  "decimal_value negative ip fp exp_negative ed =
     (let mantissa = of_nat (digits_value (ip @ fp)) / 10 ^ length fp;
          e = (if exp_negative then - int (digits_value ed) else int (digits_value ed))
      in (if negative then - mantissa else mantissa) * 10 powi e)"

definition store_double :: "rat \<Rightarrow> string \<Rightarrow> double extraction" where
  "store_double x rest =
     (case round_double x of
        Infinity neg \<Rightarrow> Failed (Some (Finite (if neg then - max_double else max_double)))
      | v \<Rightarrow> Extracted v rest)"

definition get_double :: "string \<Rightarrow> double extraction" where
  "get_double s =
     (let s1 = dropWhile isspace s
      in if s1 = [] then Failed None
         else
           let negative = (hd s1 = CHR ''-'');
               s2 = (if hd s1 = CHR ''-'' \<or> hd s1 = CHR ''+'' then tl s1 else s1);
               ip = takeWhile isdigit s2;
               s3 = dropWhile isdigit s2;
               has_point = (s3 \<noteq> [] \<and> hd s3 = CHR ''.'');
               fp = (if has_point then takeWhile isdigit (tl s3) else []);
               s4 = (if has_point then dropWhile isdigit (tl s3) else s3)
           in if ip = [] \<and> fp = [] then Failed (Some (Finite 0))
              else
                let has_exp = (s4 \<noteq> [] \<and> (hd s4 = CHR ''e'' \<or> hd s4 = CHR ''E''));
                    s5 = (if has_exp then tl s4 else s4);
                    has_sign = (has_exp \<and> s5 \<noteq> [] \<and> (hd s5 = CHR ''-'' \<or> hd s5 = CHR ''+''));
                    exp_negative = (has_sign \<and> hd s5 = CHR ''-'');
                    s6 = (if has_sign then tl s5 else s5);
                    ed = (if has_exp then takeWhile isdigit s6 else []);
                    s7 = (if has_exp then dropWhile isdigit s6 else s4)
                in if has_exp \<and> ed = [] then Failed (Some (Finite 0))
                   else store_double (decimal_value negative ip fp exp_negative ed) s7)"

section \<open>CpuSampler\<close>

text \<open>
  \<open>sample_cpu\<close> (main.cpp, lines 76-120), the branch for platforms other than Windows.
  The argument \<open>stat\<close> is the content of \<open>/proc/stat\<close> or \<open>None\<close> when the file cannot
  be opened; the snapshot is the reference parameter, returned with the result.
  \<open>read_values\<close> is the loop \<open>for (int i = 0; i < 10 && iss; ++i) iss >> values[i]\<close>.
\<close>

function read_values :: "nat \<Rightarrow> string option \<Rightarrow> u64 list \<Rightarrow> u64 list" where
  "read_values i iss values =
     (if i < 10
      then (case iss of
              None \<Rightarrow> values
            | Some buf \<Rightarrow>
                (case get_u64 buf of
                   Extracted v rest \<Rightarrow> read_values (i + 1) (Some rest) (values[i := v])
                 | Failed None \<Rightarrow> read_values (i + 1) None values
                 | Failed (Some v) \<Rightarrow> read_values (i + 1) None (values[i := v])))
      else values)"
  by pat_completeness auto
termination
  by (relation "measure (\<lambda>(i, iss, values). 10 - i)") auto

declare read_values.simps [simp del]

definition sample_cpu :: "string option \<Rightarrow> CpuSnapshot \<Rightarrow> bool \<times> CpuSnapshot" where
  "sample_cpu stat snapshot =
     (case stat of
        None \<Rightarrow> (False, snapshot)
      | Some content \<Rightarrow>
          (case getline content of
             Failed _ \<Rightarrow> (False, snapshot)
           | Extracted line _ \<Rightarrow>
               let (cpu_label, iss) =
                     (case get_string line of
                        Failed _ \<Rightarrow> ('''', None)
                      | Extracted w rest \<Rightarrow> (w, Some rest))
               in if cpu_label \<noteq> ''cpu'' then (False, snapshot)
                  else
                    let values = read_values 0 iss (replicate 10 0);
                        total = foldl (+) 0 values;
                        idle = values ! 3 + values ! 4
                    in (True, snapshot\<lparr>idle_ticks := idle, total_ticks := total\<rparr>)))"

text \<open>
  The words of the specification: the first line of the file and its leading token; a
  field of the line, written as white space other than a newline followed by the decimal
  digits of a number below \<open>2 ^ 64\<close>; and the ten values of a line, the missing ones
  being zero.
\<close>

definition first_line :: "string \<Rightarrow> string" where
  "first_line content = takeWhile (\<lambda>c. c \<noteq> CHR 0x0A) content"

definition leading_token :: "string \<Rightarrow> string" where
  "leading_token line = takeWhile (\<lambda>c. \<not> isspace c) (dropWhile isspace line)"

definition inline_space :: "char \<Rightarrow> bool" where
  "inline_space c \<longleftrightarrow> isspace c \<and> c \<noteq> CHR 0x0A"

definition field_ok :: "string \<times> nat \<Rightarrow> bool" where
  "field_ok f \<longleftrightarrow> fst f \<noteq> [] \<and> list_all inline_space (fst f) \<and> snd f < 2 ^ 64"

definition field_text :: "string \<times> nat \<Rightarrow> string" where
  "field_text f = fst f @ dec (snd f)"

definition field_value :: "string \<times> nat \<Rightarrow> u64" where
  "field_value f = of_nat (snd f)"

definition pad_fields :: "u64 list \<Rightarrow> u64 list" where
  "pad_fields vs = take 10 (vs @ replicate (10 - length vs) 0)"

section \<open>MemorySampler\<close>

text \<open>
  \<open>sample_memory\<close> (main.cpp, lines 132-169). On Linux the source is the content of
  \<open>/proc/meminfo\<close>, \<open>None\<close> when it cannot be opened; on Windows it is the answer of
  \<open>GlobalMemoryStatusEx\<close>, the total and available physical bytes or \<open>None\<close> when the
  call fails. \<open>get_triple\<close> is the loop condition \<open>meminfo >> key >> value >> unit\<close>
  and \<open>scan_meminfo\<close> the loop.
\<close>

datatype memory_source =
  Meminfo "string option"
  | GlobalMemoryStatusEx "(u64 \<times> u64) option"

definition get_triple :: "string \<Rightarrow> ((string \<times> u64 \<times> string) \<times> string) option" where
  "get_triple s =
     (case get_string s of
        Failed _ \<Rightarrow> None
      | Extracted key s1 \<Rightarrow>
          (case get_u64 s1 of
             Failed _ \<Rightarrow> None
           | Extracted v s2 \<Rightarrow>
               (case get_string s2 of
                  Failed _ \<Rightarrow> None
                | Extracted unit s3 \<Rightarrow> Some ((key, v, unit), s3))))"

function scan_meminfo :: "string \<Rightarrow> u64 \<Rightarrow> u64 \<Rightarrow> u64 \<times> u64" where
  "scan_meminfo meminfo mem_total mem_available =
     (case get_triple meminfo of
        None \<Rightarrow> (mem_total, mem_available)
      | Some ((key, v, unit), rest) \<Rightarrow>
          let mem_total' = (if key = ''MemTotal:'' then v * 1024 else mem_total);
              mem_available' =
                (if key = ''MemTotal:'' then mem_available
                 else if key = ''MemAvailable:'' then v * 1024 else mem_available)
          in if mem_total' \<noteq> 0 \<and> mem_available' \<noteq> 0 then (mem_total', mem_available')
             else scan_meminfo rest mem_total' mem_available')"
  by pat_completeness auto
termination
proof -
  have shrink: "length b < length a" if "get_string a = Extracted w b" for a w b
  proof -
    let ?a1 = "dropWhile isspace a"
    from that have ne: "?a1 \<noteq> []" and b: "b = dropWhile (\<lambda>c. \<not> isspace c) ?a1"
      by (auto simp: get_string_def Let_def split: if_splits)
    from ne have "\<not> isspace (hd ?a1)"
      by (rule hd_dropWhile)
    with ne have "dropWhile (\<lambda>c. \<not> isspace c) ?a1 = dropWhile (\<lambda>c. \<not> isspace c) (tl ?a1)"
      by (cases ?a1) simp_all
    then have "b = dropWhile (\<lambda>c. \<not> isspace c) (tl ?a1)"
      by (simp only: b)
    then have "length b \<le> length (tl ?a1)"
      by (simp only: length_dropWhile_le)
    also have "\<dots> < length ?a1"
      using ne by simp
    also have "\<dots> \<le> length a"
      by (rule length_dropWhile_le)
    finally show ?thesis .
  qed
  have keep: "length b \<le> length a" if "get_u64 a = Extracted v b" for a v b
  proof -
    let ?a1 = "dropWhile isspace a"
    let ?a2 = "if hd ?a1 = CHR ''-'' \<or> hd ?a1 = CHR ''+'' then tl ?a1 else ?a1"
    from that have "b = dropWhile isdigit ?a2"
      by (auto simp: get_u64_def Let_def split: if_splits)
    then have "length b \<le> length ?a2"
      by (simp only: length_dropWhile_le)
    also have "\<dots> \<le> length ?a1"
      by simp
    also have "\<dots> \<le> length a"
      by (rule length_dropWhile_le)
    finally show ?thesis .
  qed
  have triple: "length rest < length s" if "get_triple s = Some (t, rest)" for s t rest
  proof -
    from that obtain key s1 where k: "get_string s = Extracted key s1"
      by (auto simp: get_triple_def split: extraction.splits)
    with that obtain v s2 where u: "get_u64 s1 = Extracted v s2"
      by (auto simp: get_triple_def split: extraction.splits)
    with that k obtain unit where w: "get_string s2 = Extracted unit rest"
      by (auto simp: get_triple_def split: extraction.splits)
    from shrink [OF k] keep [OF u] shrink [OF w] show ?thesis
      by linarith
  qed
  show ?thesis
    by (relation "measure (\<lambda>(meminfo, mem_total, mem_available). length meminfo)")
      (auto simp: triple)
qed

declare scan_meminfo.simps [simp del]

definition sample_memory :: "memory_source \<Rightarrow> MemoryStatus" where
  "sample_memory source =
     (let status = \<lparr>total_bytes = 0, available_bytes = 0, MemoryStatus.valid = False\<rparr>
      in case source of
           GlobalMemoryStatusEx None \<Rightarrow> status
         | GlobalMemoryStatusEx (Some (ullTotalPhys, ullAvailPhys)) \<Rightarrow>
             status\<lparr>total_bytes := ullTotalPhys, available_bytes := ullAvailPhys,
               MemoryStatus.valid := True\<rparr>
         | Meminfo None \<Rightarrow> status
         | Meminfo (Some content) \<Rightarrow>
             let (mem_total, mem_available) = scan_meminfo content 0 0
             in if mem_total \<noteq> 0
                then status\<lparr>total_bytes := mem_total, available_bytes := mem_available,
                       MemoryStatus.valid := True\<rparr>
                else status)"

text \<open>
  The words of the specification: \<open>meminfo_triples\<close> is the sequence of key, value and
  unit triples that can be read from the start of the file, up to the first triple that
  is not complete (the first argument of \<open>triples_upto\<close> bounds their number and the
  length of the file is always enough); \<open>kilobytes\<close> is the value listed under a key,
  0 when the key is missing; \<open>scan_triples\<close> is the loop of \<open>scan_meminfo\<close> on the
  triples.
\<close>

primrec triples_upto :: "nat \<Rightarrow> string \<Rightarrow> (string \<times> u64 \<times> string) list" where
  "triples_upto 0 s = []"
| "triples_upto (Suc k) s =
     (case get_triple s of None \<Rightarrow> [] | Some (t, rest) \<Rightarrow> t # triples_upto k rest)"

definition meminfo_triples :: "string \<Rightarrow> (string \<times> u64 \<times> string) list" where
  "meminfo_triples content = triples_upto (length content) content"

definition kilobytes :: "string \<Rightarrow> (string \<times> u64 \<times> string) list \<Rightarrow> u64" where
  "kilobytes key ts = (case map_of ts key of None \<Rightarrow> 0 | Some (v, unit) \<Rightarrow> v)"

fun scan_triples :: "(string \<times> u64 \<times> string) list \<Rightarrow> u64 \<Rightarrow> u64 \<Rightarrow> u64 \<times> u64" where
  "scan_triples [] mem_total mem_available = (mem_total, mem_available)"
| "scan_triples ((key, v, unit) # ts) mem_total mem_available =
     (let mem_total' = (if key = ''MemTotal:'' then v * 1024 else mem_total);
          mem_available' =
            (if key = ''MemTotal:'' then mem_available
             else if key = ''MemAvailable:'' then v * 1024 else mem_available)
      in if mem_total' \<noteq> 0 \<and> mem_available' \<noteq> 0 then (mem_total', mem_available')
         else scan_triples ts mem_total' mem_available')"


section \<open>TaskCounter\<close>

text \<open>
  \<open>sample_tasks\<close> (main.cpp, lines 171-210). On Linux the source is the traversal of
  \<open>/proc\<close> by \<open>std::filesystem::directory_iterator\<close>, a list of steps: each step
  delivers an entry, with its file name and the answer of \<open>is_directory()\<close>, or throws
  (opening the directory, advancing the iterator and querying an entry can all throw).
  \<open>count_numeric\<close> is the loop; \<open>None\<close> is an exception that leaves it.

  On Windows the source is \<open>EnumProcesses\<close>, a function from the size in bytes of the
  buffer it is given to the number of bytes it wrote, or \<open>None\<close> when it fails. The
  buffer starts with 1024 identifiers and is doubled on every round, so round \<open>k\<close> has
  \<open>1024 * 2 ^ k\<close> of them; allocating it is assumed to succeed.
\<close>

datatype dir_step = Entry string bool | Throws

fun count_numeric :: "dir_step list \<Rightarrow> u64 \<Rightarrow> u64 option" where
  "count_numeric [] count = Some count"
| "count_numeric (Throws # steps) count = None"
| "count_numeric (Entry name is_directory # steps) count =
     (if \<not> is_directory then count_numeric steps count
      else if name \<noteq> [] \<and> list_all isdigit name then count_numeric steps (count + 1)
      else count_numeric steps count)"

datatype task_source =
  Proc "dir_step list"
  | EnumProcesses "32 word \<Rightarrow> 32 word option"

function enum_processes_loop :: "(32 word \<Rightarrow> 32 word option) \<Rightarrow> nat \<Rightarrow> TaskSummary" where
  "enum_processes_loop enum k =
     (let size = 1024 * 2 ^ k
      in case enum (of_nat (size * 4)) of
           None \<Rightarrow> \<lparr>total = 0, TaskSummary.valid = False\<rparr>
         | Some bytes_returned \<Rightarrow>
             let count = unat bytes_returned div 4
             in if count < size then \<lparr>total = of_nat count, TaskSummary.valid = True\<rparr>
                else enum_processes_loop enum (k + 1))"
  by pat_completeness auto
termination
proof -
  have bound: "k < 20" if "\<not> unat (b :: 32 word) div 4 < 1024 * 2 ^ k" for b k
  proof (rule ccontr)
    assume "\<not> k < 20"
    then have "(2::nat) ^ 20 \<le> 2 ^ k"
      by (intro power_increasing) simp_all
    moreover have "unat b < 2 ^ 32"
      using unsigned_less [of b] by simp
    ultimately show False
      using that by simp
  qed
  show ?thesis
    by (relation "measure (\<lambda>(enum, k). 20 - k)") (auto dest: bound)
qed

declare enum_processes_loop.simps [simp del]

definition sample_tasks :: "task_source \<Rightarrow> TaskSummary" where
  "sample_tasks source =
     (let summary = \<lparr>total = 0, TaskSummary.valid = False\<rparr>
      in case source of
           EnumProcesses enum \<Rightarrow> enum_processes_loop enum 0
         | Proc steps \<Rightarrow>
             (case count_numeric steps 0 of
                Some count \<Rightarrow> summary\<lparr>total := count, TaskSummary.valid := True\<rparr>
              | None \<Rightarrow> summary))"

text \<open>
  The entries the specification speaks of: a name is numeric when it is not empty and
  consists of decimal digits, and a step of the traversal is counted when it delivers a
  directory with a numeric name.
\<close>

definition numeric_name :: "string \<Rightarrow> bool" where
  "numeric_name name \<longleftrightarrow> name \<noteq> [] \<and> list_all isdigit name"

fun counted :: "dir_step \<Rightarrow> bool" where
  "counted (Entry name is_directory) \<longleftrightarrow> is_directory \<and> numeric_name name"
| "counted Throws \<longleftrightarrow> False"

section \<open>LoadAverageSampler\<close>

text \<open>
  \<open>sample_load_averages\<close> (main.cpp, lines 212-226). Where \<open>getloadavg\<close> exists the
  source is the number it returned and the array \<open>loads\<close> after the call; the Windows
  build has no such primitive.
\<close>

datatype loadavg_source =
  Getloadavg int "double \<times> double \<times> double"
  | No_getloadavg

definition sample_load_averages :: "loadavg_source \<Rightarrow> LoadAverages" where
  "sample_load_averages source =
     (let averages = \<lparr>one = Finite 0, five = Finite 0, fifteen = Finite 0, valid = False\<rparr>
      in case source of
           No_getloadavg \<Rightarrow> averages\<lparr>valid := False\<rparr>
         | Getloadavg n (loads0, loads1, loads2) \<Rightarrow>
             if n = 3
             then averages\<lparr>one := loads0, five := loads1, fifteen := loads2, valid := True\<rparr>
             else averages)"

section \<open>UptimeSampler\<close>

text \<open>
  \<open>uptime_seconds\<close> (main.cpp, lines 228-240), the branch for platforms other than
  Windows. \<open>static_cast<std::uint64_t>\<close> of a double drops the fraction. C++ fixes the
  result only when the truncated value is an unsigned 64-bit number; for the other
  values \<open>u64_of_double\<close> is the conversion of the x86-64 build. It converts with the
  signed instruction \<open>cvttsd2si\<close>, after subtracting \<open>2 ^ 63\<close> from an operand that is
  not below \<open>2 ^ 63\<close> and adding it back to the integer. A truncated value from
  \<open>- 2 ^ 63\<close> up to 0 is therefore taken modulo \<open>2 ^ 64\<close>; to an operand out of its
  range the instruction answers \<open>2 ^ 63\<close>, which is the result below \<open>- 2 ^ 63\<close> and
  for a NaN, and which becomes 0 from \<open>2 ^ 64\<close> upwards.
\<close>

definition truncate :: "rat \<Rightarrow> int" where
  "truncate x = (if 0 \<le> x then \<lfloor>x\<rfloor> else \<lceil>x\<rceil>)"

definition u64_of_double :: "double \<Rightarrow> u64" where
  "u64_of_double d =
     (case d of
        Finite x \<Rightarrow>
          (let t = truncate x
           in if - (2 ^ 63) \<le> t \<and> t < 2 ^ 64 then of_int t
              else if t < 0 then 2 ^ 63 else 0)
      | Infinity neg \<Rightarrow> (if neg then 2 ^ 63 else 0)
      | NaN \<Rightarrow> 2 ^ 63)"

definition uptime_seconds :: "string option \<Rightarrow> u64" where
  "uptime_seconds uptime_file =
     (case uptime_file of
        None \<Rightarrow> 0
      | Some content \<Rightarrow>
          let uptime =
                (case get_double content of
                   Extracted v _ \<Rightarrow> v
                 | Failed (Some v) \<Rightarrow> v
                 | Failed None \<Rightarrow> Finite 0)
          in u64_of_double uptime)"

text \<open>
  The words of the specification: a text starts with a number when, after the leading
  white space and one optional sign, it begins with a digit, or with a point and a digit.
\<close>

definition starts_number :: "string \<Rightarrow> bool" where
  "starts_number s \<longleftrightarrow>
     (let s1 = dropWhile isspace s;
          s2 = (if s1 \<noteq> [] \<and> (hd s1 = CHR ''-'' \<or> hd s1 = CHR ''+'') then tl s1 else s1)
      in s2 \<noteq> []
         \<and> (isdigit (hd s2) \<or> hd s2 = CHR ''.'' \<and> tl s2 \<noteq> [] \<and> isdigit (hd (tl s2))))"


section \<open>Formatter: mebibytes\<close>

text \<open>
  \<open>format_memory_mib\<close> (main.cpp, lines 282-287). \<open>put_fixed_1\<close> is \<open>operator<<\<close> for
  a double under \<open>std::fixed << std::setprecision(1)\<close>: the exact value of the double
  rounded to one decimal, ties to even.
\<close>

definition put_fixed_1 :: "double \<Rightarrow> string" where
  "put_fixed_1 d =
     (case d of
        Finite x \<Rightarrow>
          let n = nat (round_half_even (\<bar>x\<bar> * 10))
          in (if x < 0 then ''-'' else '''') @ dec (n div 10) @ ''.'' @ [digit_char (n mod 10)]
      | Infinity neg \<Rightarrow> (if neg then ''-inf'' else ''inf'')
      | NaN \<Rightarrow> ''nan'')"

definition format_memory_mib :: "u64 \<Rightarrow> string" where
  "format_memory_mib bytes =
     (let mib = double_div (double_of_u64 bytes) (double_mul (Finite 1024) (Finite 1024))
      in put_fixed_1 mib)"

section \<open>Properties\<close>

lemma setw_fill_two_digits:
  assumes "n < 100"
  shows "setw_fill 2 (CHR ''0'') (dec n) = two_digits n"
proof (cases "n < 10")
  case True
  then show ?thesis
    by (simp add: setw_fill_def two_digits_def dec.simps [of n] digit_char_def)
next
  case False
  with assms have "n div 10 < 10" by simp
  with False show ?thesis
    by (simp add: setw_fill_def two_digits_def dec.simps [of n] dec.simps [of "n div 10"])
qed

lemma mod_mult_div: "n mod (a * b) div a = n div a mod (b::nat)"
proof (cases "a = 0")
  case True
  then show ?thesis by simp
next
  case False
  then show ?thesis by (simp add: mod_mult2_eq)
qed

lemma hours_of_seconds: "(n mod 86400) div 3600 = n div 3600 mod (24::nat)"
  using mod_mult_div [of n 3600 24] by simp

lemma minutes_of_seconds: "((n mod 86400) mod 3600) div 60 = n div 60 mod (60::nat)"
proof -
  have "n mod 86400 mod 3600 = n mod 3600"
    by (rule mod_mod_cancel) simp
  then show ?thesis
    using mod_mult_div [of n 60 60] by simp
qed

lemma format_uptime_general:
  "format_uptime seconds =
     (let n = unat seconds in
      if n < 60 then dec n @ ''s''
      else day_prefix (n div 86400) @ two_digits (n div 3600 mod 24) @ '':''
           @ two_digits (n div 60 mod 60))"
proof -
  let ?n = "unat seconds"
  have lt: "seconds < 60 \<longleftrightarrow> ?n < 60"
    by (simp add: word_less_nat_alt)
  have d: "unat (seconds div 86400) = ?n div 86400"
    by (simp add: unat_div)
  have h: "unat (seconds mod 86400 div 3600) = ?n div 3600 mod 24"
    by (simp add: unat_div unat_mod hours_of_seconds)
  have m: "unat (seconds mod 86400 mod 3600 div 60) = ?n div 60 mod 60"
    by (simp add: unat_div unat_mod minutes_of_seconds)
  have d0: "seconds div 86400 > 0 \<longleftrightarrow> ?n div 86400 \<noteq> 0"
    by (simp add: word_less_nat_alt d)
  have d1: "seconds div 86400 > 1 \<longleftrightarrow> ?n div 86400 > 1"
    by (simp add: word_less_nat_alt d)
  have hh: "setw_fill 2 (CHR ''0'') (dec (?n div 3600 mod 24)) = two_digits (?n div 3600 mod 24)"
    by (rule setw_fill_two_digits) (simp add: less_trans [OF mod_less_divisor])
  have mm: "setw_fill 2 (CHR ''0'') (dec (?n div 60 mod 60)) = two_digits (?n div 60 mod 60)"
    by (rule setw_fill_two_digits) (simp add: less_trans [OF mod_less_divisor])
  show ?thesis
    unfolding format_uptime_def Let_def lt d h m d0 d1 hh mm day_prefix_def
    by simp
qed

text \<open>
  Claim C5. For every 64-bit number of seconds \<open>n\<close>, \<open>format_uptime\<close> prints
  \<open>n\<close> in decimal followed by \<open>s\<close> when \<open>n < 60\<close>. Otherwise it prints the
  number of whole days (only when it is not zero, with \<open>day\<close> in the plural above one,
  followed by a comma and a space), then the hours of the day and the minutes of the
  hour, each as exactly two digits, with a colon between them; the leftover seconds are
  dropped. In particular 0, 59, 60, 90000 and 176400 seconds print as \<open>0s\<close>,
  \<open>59s\<close>, \<open>00:01\<close>, \<open>1 day, 01:00\<close> and \<open>2 days, 01:00\<close>.
\<close>

theorem format_uptime_renders:
  "format_uptime seconds =
     (let n = unat seconds in
      if n < 60 then dec n @ ''s''
      else day_prefix (n div 86400) @ two_digits (n div 3600 mod 24) @ '':''
           @ two_digits (n div 60 mod 60))
   \<and> format_uptime 0 = ''0s''
   \<and> format_uptime 59 = ''59s''
   \<and> format_uptime 60 = ''00:01''
   \<and> format_uptime 90000 = ''1 day, 01:00''
   \<and> format_uptime 176400 = ''2 days, 01:00''"
proof -
  have e0: "format_uptime 0 = ''0s''" by code_simp
  have e1: "format_uptime 59 = ''59s''" by code_simp
  have e2: "format_uptime 60 = ''00:01''" by code_simp
  have e3: "format_uptime 90000 = ''1 day, 01:00''" by code_simp
  have e4: "format_uptime 176400 = ''2 days, 01:00''" by code_simp
  from format_uptime_general [of seconds] e0 e1 e2 e3 e4 show ?thesis
    by (intro conjI)
qed

subsection \<open>Rounding to binary64\<close>

lemma round_half_even_of_int: "round_half_even (of_int n) = n"
  by (simp add: round_half_even_def)

lemma round_half_even_range:
  "round_half_even x = \<lfloor>x\<rfloor> \<or> round_half_even x = \<lfloor>x\<rfloor> + 1"
  by (simp add: round_half_even_def Let_def)

lemma round_half_even_mono:
  assumes "x \<le> y"
  shows "round_half_even x \<le> round_half_even y"
proof (cases "\<lfloor>x\<rfloor> = \<lfloor>y\<rfloor>")
  case True
  with assms show ?thesis
    by (auto simp: round_half_even_def Let_def)
next
  case False
  with assms have "\<lfloor>x\<rfloor> + 1 \<le> \<lfloor>y\<rfloor>"
    using floor_mono [of x y] by linarith
  moreover have "round_half_even x \<le> \<lfloor>x\<rfloor> + 1"
    using round_half_even_range [of x] by linarith
  moreover have "\<lfloor>y\<rfloor> \<le> round_half_even y"
    using round_half_even_range [of y] by linarith
  ultimately show ?thesis by linarith
qed

lemma round_half_even_error: "\<bar>of_int (round_half_even x) - x\<bar> \<le> 1 / 2"
proof -
  have "of_int \<lfloor>x\<rfloor> \<le> x" "x < of_int \<lfloor>x\<rfloor> + 1"
    by linarith+
  then show ?thesis
    by (auto simp: round_half_even_def Let_def abs_le_iff)
qed

lemma floor_log2_bounds:
  assumes "0 < x"
  shows "2 powi floor_log2 x \<le> x" and "x < 2 powi (floor_log2 x + 1)"
proof -
  obtain p q where pq: "quotient_of x = (p, q)"
    by (cases "quotient_of x")
  then have q: "0 < q" and x: "x = of_int p / of_int q"
    by (rule quotient_of_denom_pos, rule quotient_of_div)
  with assms have p: "0 < p"
    by (simp add: zero_less_divide_iff)
  let ?bp = "bitlen p" and ?bq = "bitlen q"
  let ?e = "?bp - ?bq"
  have bp1: "1 \<le> ?bp" and bq1: "1 \<le> ?bq"
    using p q bitlen_eq_zero_iff [of p] bitlen_eq_zero_iff [of q] bitlen_nonneg [of p] bitlen_nonneg [of q]
    by linarith+
  have pl: "(2::rat) powi (?bp - 1) \<le> of_int p" and pu: "of_int p < (2::rat) powi ?bp"
  proof -
    from bitlen_bounds [OF p] have "2 ^ nat (?bp - 1) \<le> p" "p < 2 ^ nat ?bp" by auto
    then have "(of_int (2 ^ nat (?bp - 1)) :: rat) \<le> of_int p" "(of_int p :: rat) < of_int (2 ^ nat ?bp)"
      by (simp_all only: of_int_le_iff of_int_less_iff)
    then show "(2::rat) powi (?bp - 1) \<le> of_int p" "of_int p < (2::rat) powi ?bp"
      using bp1 by (simp_all add: power_int_def)
  qed
  have ql: "(2::rat) powi (?bq - 1) \<le> of_int q" and qu: "of_int q < (2::rat) powi ?bq"
  proof -
    from bitlen_bounds [OF q] have "2 ^ nat (?bq - 1) \<le> q" "q < 2 ^ nat ?bq" by auto
    then have "(of_int (2 ^ nat (?bq - 1)) :: rat) \<le> of_int q" "(of_int q :: rat) < of_int (2 ^ nat ?bq)"
      by (simp_all only: of_int_le_iff of_int_less_iff)
    then show "(2::rat) powi (?bq - 1) \<le> of_int q" "of_int q < (2::rat) powi ?bq"
      using bq1 by (simp_all add: power_int_def)
  qed
  have qpos: "(0::rat) < of_int q" using q by simp
  have lower: "(2::rat) powi (?e - 1) < x"
  proof -
    have "(2::rat) powi (?e - 1) * of_int q < 2 powi (?e - 1) * 2 powi ?bq"
      using qu by (intro mult_strict_left_mono) simp_all
    also have "\<dots> = 2 powi (?bp - 1)"
      by (simp flip: power_int_add) 
    also have "\<dots> \<le> of_int p" by (rule pl)
    finally show ?thesis
      using qpos by (simp add: x pos_less_divide_eq)
  qed
  have upper: "x < (2::rat) powi (?e + 1)"
  proof -
    have "of_int p < (2::rat) powi ?bp" by (rule pu)
    also have "\<dots> = 2 powi (?e + 1) * 2 powi (?bq - 1)"
      by (simp flip: power_int_add)
    also have "\<dots> \<le> 2 powi (?e + 1) * of_int q"
      using ql by (intro mult_left_mono) simp_all
    finally show ?thesis
      using qpos by (simp add: x pos_divide_less_eq)
  qed
  have fl: "floor_log2 x = (if 2 powi ?e \<le> x then ?e else ?e - 1)"
    by (simp add: floor_log2_def pq Let_def)
  show "2 powi floor_log2 x \<le> x"
    using lower by (simp add: fl)
  show "x < 2 powi (floor_log2 x + 1)"
    using upper by (simp add: fl not_le)
qed

lemma floor_log2_le:
  assumes "0 < x" and "x < 2 powi n"
  shows "floor_log2 x < n"
proof (rule ccontr)
  assume "\<not> floor_log2 x < n"
  then have "(2::rat) powi n \<le> 2 powi floor_log2 x"
    by (intro power_int_increasing) simp_all
  with floor_log2_bounds(1) [OF assms(1)] assms(2) show False by linarith
qed

lemma floor_log2_ge:
  assumes "2 powi n \<le> x"
  shows "n \<le> floor_log2 x"
proof (rule ccontr)
  assume "\<not> n \<le> floor_log2 x"
  then have "(2::rat) powi (floor_log2 x + 1) \<le> 2 powi n"
    by (intro power_int_increasing) simp_all
  moreover have "0 < x"
    using assms zero_less_power_int [of "2::rat" n] by linarith
  ultimately show False
    using floor_log2_bounds(2) [of x] assms by linarith
qed

lemma ulp_exponent_le:
  assumes "x \<noteq> 0" and "\<bar>x\<bar> < 2 powi n" and "- 1021 \<le> n"
  shows "ulp_exponent x \<le> n - 53"
proof -
  from assms(1) have "0 < \<bar>x\<bar>" by simp
  from floor_log2_le [OF this assms(2)] assms(3) show ?thesis
    by (simp add: ulp_exponent_def)
qed

lemma grid_point_scaled:
  assumes "s \<le> j"
  shows "(of_int k * 2 powi j :: rat) / 2 powi s = of_int (k * 2 ^ nat (j - s))"
proof -
  have "(2::rat) powi j = 2 powi (j - s) * 2 powi s"
    by (simp flip: power_int_add)
  moreover have "(2::rat) powi (j - s) = 2 ^ nat (j - s)"
    using assms by (simp add: power_int_def)
  ultimately show ?thesis by simp
qed

lemma grid_point_unscaled:
  assumes "s \<le> j"
  shows "(of_int (k * 2 ^ nat (j - s)) :: rat) * 2 powi s = of_int k * 2 powi j"
proof -
  have "(2::rat) powi j = 2 powi (j - s) * 2 powi s"
    by (simp flip: power_int_add)
  moreover have "(2::rat) powi (j - s) = 2 ^ nat (j - s)"
    using assms by (simp add: power_int_def)
  ultimately show ?thesis by simp
qed

lemma round_finite_le_grid:
  assumes "x \<le> of_int k * 2 powi j" and "ulp_exponent x \<le> j"
  shows "round_finite x \<le> of_int k * 2 powi j"
proof (cases "x = 0")
  case True
  with assms(1) show ?thesis by (simp add: round_finite_def)
next
  case False
  let ?s = "ulp_exponent x"
  have pos: "(0::rat) < 2 powi ?s" by simp
  have "x / 2 powi ?s \<le> (of_int k * 2 powi j) / 2 powi ?s"
    using assms(1) pos by (simp add: divide_right_mono)
  also have "\<dots> = of_int (k * 2 ^ nat (j - ?s))"
    by (rule grid_point_scaled [OF assms(2)])
  finally have "round_half_even (x / 2 powi ?s) \<le> k * 2 ^ nat (j - ?s)"
    using round_half_even_mono round_half_even_of_int by metis
  then have "(of_int (round_half_even (x / 2 powi ?s)) :: rat) \<le> of_int (k * 2 ^ nat (j - ?s))"
    by (simp only: of_int_le_iff)
  then have "of_int (round_half_even (x / 2 powi ?s)) * 2 powi ?s
      \<le> (of_int (k * 2 ^ nat (j - ?s)) :: rat) * 2 powi ?s"
    using pos by (simp only: mult_le_cancel_right_pos)
  also have "\<dots> = of_int k * 2 powi j"
    by (rule grid_point_unscaled [OF assms(2)])
  finally show ?thesis
    using False by (simp add: round_finite_def)
qed

lemma round_finite_ge_grid:
  assumes "of_int k * 2 powi j \<le> x" and "ulp_exponent x \<le> j"
  shows "of_int k * 2 powi j \<le> round_finite x"
proof (cases "x = 0")
  case True
  with assms(1) show ?thesis by (simp add: round_finite_def)
next
  case False
  let ?s = "ulp_exponent x"
  have pos: "(0::rat) < 2 powi ?s" by simp
  have "(of_int k * 2 powi j) / 2 powi ?s \<le> x / 2 powi ?s"
    using assms(1) pos by (simp add: divide_right_mono)
  then have "of_int (k * 2 ^ nat (j - ?s)) \<le> x / 2 powi ?s"
    by (simp only: grid_point_scaled [OF assms(2)])
  then have "k * 2 ^ nat (j - ?s) \<le> round_half_even (x / 2 powi ?s)"
    using round_half_even_mono round_half_even_of_int by metis
  then have "(of_int (k * 2 ^ nat (j - ?s)) :: rat) \<le> of_int (round_half_even (x / 2 powi ?s))"
    by (simp only: of_int_le_iff)
  then have "(of_int (k * 2 ^ nat (j - ?s)) :: rat) * 2 powi ?s
      \<le> of_int (round_half_even (x / 2 powi ?s)) * 2 powi ?s"
    using pos by (simp only: mult_le_cancel_right_pos)
  then have "(of_int k :: rat) * 2 powi j \<le> of_int (round_half_even (x / 2 powi ?s)) * 2 powi ?s"
    by (simp only: grid_point_unscaled [OF assms(2)])
  then show ?thesis
    using False by (simp add: round_finite_def)
qed

lemma round_finite_exact:
  assumes "x = of_int k * 2 powi j" and "ulp_exponent x \<le> j"
  shows "round_finite x = x"
proof (rule antisym)
  show "round_finite x \<le> x"
    using round_finite_le_grid [of x k j] assms by simp
  show "x \<le> round_finite x"
    using round_finite_ge_grid [of k j x] assms by simp
qed

lemma round_finite_nonneg:
  assumes "0 \<le> x"
  shows "0 \<le> round_finite x"
  using round_finite_ge_grid [of 0 "ulp_exponent x" x] assms by simp

lemma round_finite_error:
  "\<bar>round_finite x - x\<bar> \<le> 2 powi ulp_exponent x / 2"
proof (cases "x = 0")
  case True
  then show ?thesis by (simp add: round_finite_def)
next
  case False
  let ?s = "ulp_exponent x"
  let ?m = "round_half_even (x / 2 powi ?s)"
  have pos: "(0::rat) < 2 powi ?s" by simp
  have "round_finite x - x = (of_int ?m - x / 2 powi ?s) * 2 powi ?s"
    using False pos by (simp add: round_finite_def field_simps)
  then have "\<bar>round_finite x - x\<bar> = \<bar>of_int ?m - x / 2 powi ?s\<bar> * 2 powi ?s"
    using pos by (simp add: abs_mult)
  also have "\<dots> \<le> (1 / 2) * 2 powi ?s"
    using round_half_even_error [of "x / 2 powi ?s"] pos
    by (intro mult_right_mono) simp_all
  finally show ?thesis by simp
qed

lemma overflow_threshold_power: "overflow_threshold = 2 ^ 1024"
  by (simp add: overflow_threshold_def)

text \<open>Non-negative values up to a power of two stay finite.\<close>

lemma round_double_bounded:
  assumes "0 \<le> x" and "x \<le> 2 ^ n" and "n < 1024"
  shows "\<exists>r. round_double x = Finite r \<and> 0 \<le> r \<and> r \<le> 2 ^ n"
proof -
  have r0: "0 \<le> round_finite x"
    using assms(1) by (rule round_finite_nonneg)
  have rn: "round_finite x \<le> 2 ^ n"
  proof (cases "x = 0")
    case True
    then show ?thesis by (simp add: round_finite_def)
  next
    case False
    have "\<bar>x\<bar> < 2 powi (int n + 1)"
    proof -
      have "(0::rat) < 2 ^ n" by simp
      moreover have "(2::rat) ^ (n + 1) = 2 * 2 ^ n" by simp
      ultimately have "x < 2 ^ (n + 1)" using assms(2) by linarith
      then show ?thesis using assms(1) by (simp add: power_int_def nat_add_distrib)
    qed
    from ulp_exponent_le [OF False this] have "ulp_exponent x \<le> int n"
      by simp
    from round_finite_le_grid [of x 1 "int n", OF _ this] assms(2) show ?thesis
      by simp
  qed
  have "(2::rat) ^ n < 2 ^ 1024"
    by (rule power_strict_increasing) (use assms(3) in simp_all)
  then have "(2::rat) ^ n < overflow_threshold"
    by (simp only: overflow_threshold_power)
  with r0 rn show ?thesis
    by (simp add: round_double_def Let_def)
qed

declare of_nat_unat [simp del]

lemma round_double_finite:
  assumes "0 \<le> x" and "x \<le> 2 ^ n" and "n < 1024"
  shows "round_double x = Finite (round_finite x)"
  using round_double_bounded [OF assms] by (auto simp: round_double_def Let_def split: if_splits)

lemma round_finite_le_power:
  assumes "0 \<le> x" and "x \<le> 2 ^ n" and "n < 1024"
  shows "round_finite x \<le> 2 ^ n"
  using round_double_bounded [OF assms] round_double_finite [OF assms] by auto

lemma round_finite_ge_one:
  assumes "1 \<le> x"
  shows "1 \<le> round_finite x"
proof -
  have x: "0 < x" "\<bar>x\<bar> = x" using assms by simp_all
  have fl: "0 \<le> floor_log2 x"
    using floor_log2_ge [of 0 x] assms by simp
  then have "ulp_exponent x \<le> floor_log2 x"
    by (simp add: ulp_exponent_def x)
  moreover have "of_int 1 * 2 powi floor_log2 x \<le> x"
    using floor_log2_bounds(1) [OF x(1)] by simp
  ultimately have "of_int 1 * 2 powi floor_log2 x \<le> round_finite x"
    by (rule round_finite_ge_grid [rotated])
  moreover have "(1::rat) \<le> 2 powi floor_log2 x"
    using fl by simp
  ultimately show ?thesis by simp
qed

lemma round_double_nat_exact:
  assumes "n < 2 ^ 53"
  shows "round_double (of_nat n) = Finite (of_nat n)"
proof -
  let ?x = "of_nat n :: rat"
  have lt: "?x < 2 ^ 53"
    using assms by (metis of_nat_less_iff of_nat_numeral of_nat_power)
  have "round_finite ?x = ?x"
  proof (cases "n = 0")
    case True
    then show ?thesis by (simp add: round_finite_def)
  next
    case False
    then have "?x \<noteq> 0" by simp
    moreover have "\<bar>?x\<bar> < 2 powi 53" using lt by simp
    ultimately have "ulp_exponent ?x \<le> 0"
      using ulp_exponent_le [of ?x 53] by simp
    moreover have "?x = of_int (int n) * 2 powi 0" by simp
    ultimately show ?thesis by (rule round_finite_exact [rotated])
  qed
  moreover have "round_double ?x = Finite (round_finite ?x)"
    by (rule round_double_finite [of _ 53]) (use lt in simp_all)
  ultimately show ?thesis by simp
qed

lemma u64_as_rat:
  "0 \<le> (of_nat (unat (w::u64)) :: rat)" "(of_nat (unat (w::u64)) :: rat) \<le> 2 ^ 64"
proof -
  show "0 \<le> (of_nat (unat w) :: rat)" by simp
  have "unat w < 2 ^ 64"
    using unsigned_less [of w] by simp
  then have "unat w \<le> 18446744073709551616"
    by simp
  then show "(of_nat (unat w) :: rat) \<le> 2 ^ 64"
    by simp
qed

lemma double_of_u64_finite:
  "double_of_u64 w = Finite (round_finite (of_nat (unat w)))"
  unfolding double_of_u64_def
  by (rule round_double_finite [OF u64_as_rat]) simp

lemma double_of_u64_bounds:
  "0 \<le> round_finite (of_nat (unat (w::u64)))" "round_finite (of_nat (unat (w::u64))) \<le> 2 ^ 64"
proof -
  show "0 \<le> round_finite (of_nat (unat w))"
    by (rule round_finite_nonneg) simp
  show "round_finite (of_nat (unat w)) \<le> 2 ^ 64"
    by (rule round_finite_le_power [OF u64_as_rat]) simp
qed

lemma double_of_u64_ge_one:
  assumes "w \<noteq> 0"
  shows "1 \<le> round_finite (of_nat (unat (w::u64)))"
proof -
  from assms have "unat w \<noteq> 0" by (simp add: unat_eq_0)
  then have "1 \<le> unat w" by simp
  then have "(1::rat) \<le> of_nat (unat w)"
    by (metis of_nat_1 of_nat_le_iff)
  then show ?thesis by (rule round_finite_ge_one)
qed

lemma double_of_u64_exact:
  assumes "unat w < 2 ^ 53"
  shows "double_of_u64 w = Finite (of_nat (unat w))"
  unfolding double_of_u64_def using assms by (rule round_double_nat_exact)

text \<open>The quotient computed when the tick total has moved.\<close>

lemma usage_quotient_finite:
  assumes "t \<noteq> (0::u64)"
  shows "\<exists>r. double_div (double_mul (double_of_u64 a) (Finite 100)) (double_of_u64 t) = Finite r
    \<and> 0 \<le> r \<and> r \<le> 2 ^ 71"
proof -
  let ?a = "round_finite (of_nat (unat a))" and ?t = "round_finite (of_nat (unat t))"
  have a: "0 \<le> ?a" "?a \<le> 2 ^ 64" by (rule double_of_u64_bounds)+
  have t: "1 \<le> ?t" using assms by (rule double_of_u64_ge_one)
  then have t0: "?t \<noteq> 0" by linarith
  have p0: "0 \<le> ?a * 100" using a by simp
  have p1: "?a * 100 \<le> 2 ^ 71"
  proof -
    have "?a * 100 \<le> 2 ^ 64 * 128" using a by linarith
    then show ?thesis by simp
  qed
  let ?p = "round_finite (?a * 100)"
  have mul: "double_mul (Finite ?a) (Finite 100) = Finite ?p"
    using round_double_finite [OF p0 p1] by simp
  have p: "0 \<le> ?p" "?p \<le> 2 ^ 71"
    using round_finite_nonneg [OF p0] round_finite_le_power [OF p0 p1] by simp_all
  have q0: "0 \<le> ?p / ?t" using p t by simp
  have q1: "?p / ?t \<le> 2 ^ 71"
  proof -
    have "?p / ?t \<le> ?p / 1"
      using p(1) t by (intro divide_left_mono) simp_all
    with p(2) show ?thesis by simp
  qed
  have dv: "double_div (Finite ?p) (Finite ?t) = Finite (round_finite (?p / ?t))"
    using round_double_finite [OF q0 q1] t0 by simp
  have "0 \<le> round_finite (?p / ?t)" "round_finite (?p / ?t) \<le> 2 ^ 71"
    using round_finite_nonneg [OF q0] round_finite_le_power [OF q0 q1] by simp_all
  then show ?thesis
    unfolding double_of_u64_finite mul dv by simp
qed

lemma compute_cpu_usage_finite:
  "\<exists>r. compute_cpu_usage prev cur = Finite r \<and> 0 \<le> r"
proof (cases "total_ticks cur - total_ticks prev = 0")
  case True
  then show ?thesis by (simp add: compute_cpu_usage_def)
next
  case False
  from usage_quotient_finite [OF this] show ?thesis
    by (auto simp: compute_cpu_usage_def Let_def False)
qed

lemma compute_cpu_usage_zero_delta:
  "total_ticks cur = total_ticks prev \<Longrightarrow> compute_cpu_usage prev cur = Finite 0"
  by (simp add: compute_cpu_usage_def)

lemma round_finite_le_100:
  assumes "0 \<le> x" and "x \<le> 100"
  shows "round_finite x \<le> 100"
proof (cases "x = 0")
  case True
  then show ?thesis by (simp add: round_finite_def)
next
  case False
  have "\<bar>x\<bar> < 2 powi 7" using assms by simp
  from ulp_exponent_le [OF False this] have "ulp_exponent x \<le> 2" by simp
  moreover have "x \<le> of_int 25 * 2 powi 2" using assms(2) by simp
  ultimately have "round_finite x \<le> of_int 25 * 2 powi 2"
    by (rule round_finite_le_grid [rotated])
  then show ?thesis by simp
qed

lemma compute_cpu_usage_percent:
  assumes "unat (idle_ticks cur - idle_ticks prev) \<le> unat (total_ticks cur - total_ticks prev)"
    and "unat (total_ticks cur - total_ticks prev) * 100 < 2 ^ 53"
  shows "\<exists>r. compute_cpu_usage prev cur = Finite r \<and> 0 \<le> r \<and> r \<le> 100"
proof (cases "total_ticks cur - total_ticks prev = 0")
  case True
  then show ?thesis by (simp add: compute_cpu_usage_def)
next
  case False
  let ?i = "idle_ticks cur - idle_ticks prev" and ?t = "total_ticks cur - total_ticks prev"
  let ?a = "?t - ?i"
  have it: "?i \<le> ?t" using assms(1) by (simp add: word_le_nat_alt)
  then have a: "unat ?a = unat ?t - unat ?i" by (rule unat_sub)
  have tpos: "0 < unat ?t" using False by (simp add: unat_gt_0)
  have at: "unat ?a \<le> unat ?t" using a by simp
  have t53: "unat ?t < 2 ^ 53" using assms(2) by simp
  then have a53: "unat ?a < 2 ^ 53" using at by simp
  have a100: "unat ?a * 100 < 2 ^ 53" using at assms(2) by simp
  have da: "double_of_u64 ?a = Finite (of_nat (unat ?a))"
    using a53 by (rule double_of_u64_exact)
  have dt: "double_of_u64 ?t = Finite (of_nat (unat ?t))"
    using t53 by (rule double_of_u64_exact)
  have mul: "double_mul (double_of_u64 ?a) (Finite 100) = Finite (of_nat (unat ?a * 100))"
    using round_double_nat_exact [OF a100] by (simp add: da)
  let ?q = "(of_nat (unat ?a * 100) :: rat) / of_nat (unat ?t)"
  have tr: "(0::rat) < of_nat (unat ?t)" using tpos by simp
  have q0: "0 \<le> ?q" by simp
  have q1: "?q \<le> 100"
  proof -
    have "(of_nat (unat ?a * 100) :: rat) \<le> of_nat (unat ?t * 100)"
      using at by (simp only: of_nat_le_iff)
    then have "(of_nat (unat ?a * 100) :: rat) \<le> 100 * of_nat (unat ?t)" by simp
    then show ?thesis using tr by (simp add: pos_divide_le_eq)
  qed
  have q128: "?q \<le> 2 ^ 7" using q1 by simp
  have "double_div (Finite (of_nat (unat ?a * 100))) (Finite (of_nat (unat ?t)))
      = Finite (round_finite ?q)"
    using round_double_finite [OF q0 q128] tr by simp
  then have "compute_cpu_usage prev cur = Finite (round_finite ?q)"
    using False by (simp add: compute_cpu_usage_def Let_def mul dt)
  moreover have "0 \<le> round_finite ?q" using q0 by (rule round_finite_nonneg)
  moreover have "round_finite ?q \<le> 100" using q0 q1 by (rule round_finite_le_100)
  ultimately show ?thesis by simp
qed

subsection \<open>CPU usage\<close>

lemma floor_log2_eqI:
  assumes "2 powi e \<le> x" and "x < 2 powi (e + 1)"
  shows "floor_log2 x = e"
proof -
  have "0 < x"
    using assms(1) zero_less_power_int [of "2::rat" e] by linarith
  from floor_log2_le [OF this assms(2)] floor_log2_ge [OF assms(1)] show ?thesis
    by linarith
qed

lemma round_double_eval:
  assumes "0 < x" and "2 powi e \<le> x" and "x < 2 powi (e + 1)"
    and "- 1022 \<le> e" and "e \<le> 1022"
    and "round_half_even (x / 2 powi (e - 52)) = m"
  shows "round_double x = Finite (of_int m * 2 powi (e - 52))"
proof -
  have fl: "floor_log2 \<bar>x\<bar> = e"
    using assms(1-3) by (intro floor_log2_eqI) simp_all
  have ulp: "ulp_exponent x = e - 52"
    using assms(4) by (simp add: ulp_exponent_def fl)
  have r: "round_finite x = of_int m * 2 powi (e - 52)"
    using assms(1,6) by (simp add: round_finite_def ulp)
  have "round_finite x \<le> of_int 1 * 2 powi (e + 1)"
    by (rule round_finite_le_grid) (use assms(3) ulp in simp_all)
  also have "(2::rat) powi (e + 1) \<le> 2 powi 1023"
    by (rule power_int_increasing) (use assms(5) in simp_all)
  also have "(2::rat) powi 1023 < 2 ^ 1024"
    by simp
  finally have "round_finite x < overflow_threshold"
    by (simp add: overflow_threshold_power)
  moreover have "0 \<le> round_finite x"
    using assms(1) by (intro round_finite_nonneg) simp
  ultimately show ?thesis
    by (simp add: round_double_def Let_def r)
qed

lemma round_half_even_eqI:
  assumes "of_int m - 1 / 2 \<le> x" and "x \<le> of_int m + 1 / 2"
    and "x = of_int m - 1 / 2 \<or> x = of_int m + 1 / 2 \<Longrightarrow> even m"
  shows "round_half_even x = m"
proof -
  have "\<lfloor>x\<rfloor> = m - 1 \<or> \<lfloor>x\<rfloor> = m"
    using assms(1,2) by linarith
  then show ?thesis
  proof
    assume f: "\<lfloor>x\<rfloor> = m - 1"
    then have "x < of_int m" by linarith
    with assms(1) have d: "1 / 2 \<le> x - of_int (m - 1)" by simp
    show ?thesis
    proof (cases "x = of_int m - 1 / 2")
      case True
      with assms(3) have "even m" by simp
      with True f show ?thesis by (simp add: round_half_even_def Let_def)
    next
      case False
      with d have "1 / 2 < x - of_int (m - 1)" by simp
      with f show ?thesis by (simp add: round_half_even_def Let_def)
    qed
  next
    assume f: "\<lfloor>x\<rfloor> = m"
    then have "of_int m \<le> x" by linarith
    have d: "x - of_int m \<le> 1 / 2" using assms(2) by simp
    show ?thesis
    proof (cases "x = of_int m + 1 / 2")
      case True
      with assms(3) have "even m" by simp
      with True f show ?thesis by (simp add: round_half_even_def Let_def)
    next
      case False
      with d have "x - of_int m < 1 / 2" by simp
      with f show ?thesis by (simp add: round_half_even_def Let_def)
    qed
  qed
qed


text \<open>
  Rounding can lift the quotient above 100 although the idle delta is zero: with
  360413157154935 ticks, all of them busy, the product by 100 is not representable, is
  rounded up, and the quotient is the next number after 100.
\<close>

lemma compute_cpu_usage_rounds_above_100:
  "compute_cpu_usage \<lparr>idle_ticks = 0, total_ticks = 0\<rparr>
     \<lparr>idle_ticks = 0, total_ticks = 360413157154935\<rparr> = Finite (100 + 1 / 2 ^ 46)"
proof -
  have t: "double_of_u64 360413157154935 = Finite 360413157154935"
    using double_of_u64_exact [of 360413157154935] by simp
  have h1: "round_half_even (36041315715493500 / 2 powi (55 - 52)) = 4505164464436688"
    by (rule round_half_even_eqI) simp_all
  have p: "round_double 36041315715493500 = Finite 36041315715493504"
    using round_double_eval [OF _ _ _ _ _ h1] by simp
  have h2: "round_half_even (36041315715493504 / 360413157154935 / 2 powi (6 - 52))
      = 7036874417766401"
    by (rule round_half_even_eqI) simp_all
  have q: "round_double (36041315715493504 / 360413157154935) = Finite (100 + 1 / 2 ^ 46)"
    using round_double_eval [OF _ _ _ _ _ h2] by simp
  show ?thesis
    by (simp add: compute_cpu_usage_def t p q)
qed

text \<open>
  With the idle counter ahead of the total counter the active delta wraps around.
\<close>

lemma compute_cpu_usage_wrapped:
  "compute_cpu_usage \<lparr>idle_ticks = 0, total_ticks = 0\<rparr> \<lparr>idle_ticks = 10, total_ticks = 5\<rparr>
       = Finite 368934881474191032320"
proof -
  have t: "double_of_u64 5 = Finite 5"
    using double_of_u64_exact [of 5] by simp
  have h0: "round_half_even (18446744073709551611 / 2 powi (63 - 52)) = 9007199254740992"
    by (rule round_half_even_eqI) simp_all
  have r: "round_double 18446744073709551611 = Finite 18446744073709551616"
    using round_double_eval [OF _ _ _ _ _ h0] by simp
  have u: "unat (- 5 :: u64) = 18446744073709551611"
    by simp
  have a: "double_of_u64 (- 5) = Finite 18446744073709551616"
    by (simp add: double_of_u64_def u r)
  have h1: "round_half_even (1844674407370955161600 / 2 powi (70 - 52)) = 7036874417766400"
    by (rule round_half_even_eqI) simp_all
  have p: "round_double 1844674407370955161600 = Finite 1844674407370955161600"
    using round_double_eval [OF _ _ _ _ _ h1] by simp
  have h2: "round_half_even (368934881474191032320 / 2 powi (68 - 52)) = 5629499534213120"
    by (rule round_half_even_eqI) simp_all
  have q: "round_double 368934881474191032320 = Finite 368934881474191032320"
    using round_double_eval [OF _ _ _ _ _ h2] by simp
  show ?thesis
    by (simp add: compute_cpu_usage_def t a p q)
qed

text \<open>
  Claim C1, as stated: for snapshots with \<open>total_ticks prev \<le> total_ticks cur\<close> and
  \<open>idle_ticks prev \<le> idle_ticks cur\<close> the usage is in \<open>[0, 100]\<close>. It fails when
  the idle counter has advanced more than the total: from \<open>(idle 0, total 0)\<close> to
  \<open>(idle 10, total 5)\<close> the active delta \<open>5 - 10\<close> wraps to \<open>2 ^ 64 - 5\<close> and the
  result is 368934881474191032320. It also fails, by one unit in the last place, when
  the product by 100 is rounded up: from \<open>(idle 0, total 0)\<close> to
  \<open>(idle 0, total 360413157154935)\<close> the result is \<open>100 + 2 ^ -46\<close>.
\<close>

theorem compute_cpu_usage_above_100:
  "total_ticks \<lparr>idle_ticks = 0, total_ticks = 0\<rparr> \<le> total_ticks \<lparr>idle_ticks = 10, total_ticks = 5\<rparr>
   \<and> idle_ticks \<lparr>idle_ticks = 0, total_ticks = 0\<rparr> \<le> idle_ticks \<lparr>idle_ticks = 10, total_ticks = 5\<rparr>
   \<and> compute_cpu_usage \<lparr>idle_ticks = 0, total_ticks = 0\<rparr> \<lparr>idle_ticks = 10, total_ticks = 5\<rparr>
       = Finite 368934881474191032320
   \<and> (100::rat) < 368934881474191032320
   \<and> total_ticks \<lparr>idle_ticks = 0, total_ticks = 0\<rparr>
       \<le> total_ticks \<lparr>idle_ticks = 0, total_ticks = 360413157154935\<rparr>
   \<and> idle_ticks \<lparr>idle_ticks = 0, total_ticks = 0\<rparr>
       \<le> idle_ticks \<lparr>idle_ticks = 0, total_ticks = 360413157154935\<rparr>
   \<and> compute_cpu_usage \<lparr>idle_ticks = 0, total_ticks = 0\<rparr>
        \<lparr>idle_ticks = 0, total_ticks = 360413157154935\<rparr> = Finite (100 + 1 / 2 ^ 46)
   \<and> (100::rat) < 100 + 1 / 2 ^ 46"
  using compute_cpu_usage_wrapped compute_cpu_usage_rounds_above_100 by simp

text \<open>
  Claim C1, amended: when the idle delta is at most the total delta (both as the code
  computes them, modulo \<open>2 ^ 64\<close>) and 100 times the total delta is below \<open>2 ^ 53\<close>,
  so that the conversions and the product are exact, \<open>compute_cpu_usage\<close> returns a
  finite value in \<open>[0, 100]\<close>.
\<close>

theorem compute_cpu_usage_in_range:
  assumes "unat (idle_ticks cur - idle_ticks prev) \<le> unat (total_ticks cur - total_ticks prev)"
    and "unat (total_ticks cur - total_ticks prev) * 100 < 2 ^ 53"
  shows "\<exists>r. compute_cpu_usage prev cur = Finite r \<and> 0 \<le> r \<and> r \<le> 100"
  using assms by (rule compute_cpu_usage_percent)

theorem compute_cpu_usage_in_range_witness:
  "unat (idle_ticks \<lparr>idle_ticks = 150, total_ticks = 1100\<rparr> - idle_ticks \<lparr>idle_ticks = 100, total_ticks = 1000\<rparr>)
     \<le> unat (total_ticks \<lparr>idle_ticks = 150, total_ticks = 1100\<rparr> - total_ticks \<lparr>idle_ticks = 100, total_ticks = 1000\<rparr>)
   \<and> unat (total_ticks \<lparr>idle_ticks = 150, total_ticks = 1100\<rparr> - total_ticks \<lparr>idle_ticks = 100, total_ticks = 1000\<rparr>) * 100
       < 2 ^ 53
   \<and> (\<exists>r. compute_cpu_usage \<lparr>idle_ticks = 100, total_ticks = 1000\<rparr> \<lparr>idle_ticks = 150, total_ticks = 1100\<rparr>
         = Finite r \<and> 0 \<le> r \<and> r \<le> 100)"
proof -
  let ?prev = "\<lparr>idle_ticks = 100, total_ticks = 1000\<rparr>"
  let ?cur = "\<lparr>idle_ticks = 150, total_ticks = 1100\<rparr>"
  have h1: "unat (idle_ticks ?cur - idle_ticks ?prev) \<le> unat (total_ticks ?cur - total_ticks ?prev)"
    by simp
  have h2: "unat (total_ticks ?cur - total_ticks ?prev) * 100 < 2 ^ 53"
    by simp
  from compute_cpu_usage_in_range [OF h1 h2] h1 h2 show ?thesis
    by (intro conjI)
qed

text \<open>
  Claim C2. When the total tick counters of the two snapshots are equal, in particular
  for a snapshot paired with itself, \<open>compute_cpu_usage\<close> returns exactly \<open>0.0\<close>.
  For every pair of snapshots the result is a finite number, never a NaN or an infinity,
  and whenever the division is reached its divisor is not zero.
\<close>

theorem compute_cpu_usage_total:
  "(total_ticks cur = total_ticks prev \<longrightarrow> compute_cpu_usage prev cur = Finite 0)
   \<and> compute_cpu_usage s s = Finite 0
   \<and> (\<exists>r. compute_cpu_usage prev cur = Finite r)
   \<and> (total_ticks cur \<noteq> total_ticks prev
        \<longrightarrow> double_of_u64 (total_ticks cur - total_ticks prev) \<noteq> Finite 0)"
proof (intro conjI impI)
  show "compute_cpu_usage prev cur = Finite 0" if "total_ticks cur = total_ticks prev"
    using that by (rule compute_cpu_usage_zero_delta)
  show "compute_cpu_usage s s = Finite 0"
    by (rule compute_cpu_usage_zero_delta) simp
  show "\<exists>r. compute_cpu_usage prev cur = Finite r"
    using compute_cpu_usage_finite [of prev cur] by blast
  show "double_of_u64 (total_ticks cur - total_ticks prev) \<noteq> Finite 0"
    if "total_ticks cur \<noteq> total_ticks prev"
  proof -
    from that have "total_ticks cur - total_ticks prev \<noteq> 0" by simp
    from double_of_u64_ge_one [OF this] show ?thesis
      by (simp add: double_of_u64_finite)
  qed
qed

theorem compute_cpu_usage_total_witness:
  "total_ticks \<lparr>idle_ticks = 7, total_ticks = 40\<rparr> = total_ticks \<lparr>idle_ticks = 3, total_ticks = 40\<rparr>
   \<and> compute_cpu_usage \<lparr>idle_ticks = 3, total_ticks = 40\<rparr> \<lparr>idle_ticks = 7, total_ticks = 40\<rparr> = Finite 0
   \<and> total_ticks \<lparr>idle_ticks = 7, total_ticks = 50\<rparr> \<noteq> total_ticks \<lparr>idle_ticks = 3, total_ticks = 40\<rparr>
   \<and> double_of_u64 (total_ticks \<lparr>idle_ticks = 7, total_ticks = 50\<rparr> - total_ticks \<lparr>idle_ticks = 3, total_ticks = 40\<rparr>)
       \<noteq> Finite 0"
  using compute_cpu_usage_total [of "\<lparr>idle_ticks = 7, total_ticks = 40\<rparr>" "\<lparr>idle_ticks = 3, total_ticks = 40\<rparr>"]
    compute_cpu_usage_total [of "\<lparr>idle_ticks = 7, total_ticks = 50\<rparr>" "\<lparr>idle_ticks = 3, total_ticks = 40\<rparr>"]
  by simp

subsection \<open>Tasks, load averages and invalid results\<close>

lemma count_numeric_eq:
  "count_numeric steps count =
     (if Throws \<in> set steps then None
      else Some (count + of_nat (length (filter counted steps))))"
  by (induction steps count rule: count_numeric.induct) (auto simp: numeric_name_def)

text \<open>
  Claim C6, amended. For every traversal of the process directory that does not throw,
  \<open>sample_tasks\<close> returns \<open>valid = True\<close> and the number of entries that are
  directories and whose names are non-empty and all decimal digits; a traversal that
  throws anywhere yields \<open>valid = False\<close> with \<open>total = 0\<close>, and nothing propagates.
\<close>

theorem sample_tasks_counts_directories:
  "sample_tasks (Proc steps) =
     (if Throws \<in> set steps then \<lparr>total = 0, TaskSummary.valid = False\<rparr>
      else \<lparr>total = of_nat (length (filter counted steps)), TaskSummary.valid = True\<rparr>)"
  by (simp add: sample_tasks_def count_numeric_eq)

text \<open>
  Claim C6, as stated, counts every entry with a numeric name. The code first skips the
  entries that are not directories: a regular file named \<open>123\<close> has a numeric name
  and is not counted.
\<close>

theorem sample_tasks_skips_numeric_file:
  "numeric_name ''123''
   \<and> sample_tasks (Proc [Entry ''123'' False]) = \<lparr>total = 0, TaskSummary.valid = True\<rparr>"
  by (simp add: sample_tasks_def numeric_name_def isdigit_def)

text \<open>
  Claim C9. Where \<open>getloadavg\<close> exists, the result is valid exactly when the call
  returned 3, and then the three fields are the three values it delivered; for any
  other return value the fields stay zero. Without the primitive the result is always
  the zero result with \<open>valid = False\<close>.
\<close>

theorem sample_load_averages_valid:
  "sample_load_averages (Getloadavg n (a, b, c))
     = (if n = 3 then \<lparr>one = a, five = b, fifteen = c, valid = True\<rparr>
        else \<lparr>one = Finite 0, five = Finite 0, fifteen = Finite 0, valid = False\<rparr>)
   \<and> (LoadAverages.valid (sample_load_averages (Getloadavg n (a, b, c))) \<longleftrightarrow> n = 3)
   \<and> sample_load_averages No_getloadavg
     = \<lparr>one = Finite 0, five = Finite 0, fifteen = Finite 0, valid = False\<rparr>"
  by (simp add: sample_load_averages_def Let_def)





subsection \<open>Mebibytes\<close>

lemma floor_log2_power: "floor_log2 (2 powi n) = n"
  by (rule floor_log2_eqI) (simp_all add: power_int_strict_increasing)

lemma round_finite_idem:
  assumes "1 \<le> x"
  shows "round_finite (round_finite x) = round_finite x"
proof -
  let ?e = "floor_log2 x" and ?d = "round_finite x"
  have x: "0 < x" "\<bar>x\<bar> = x" "x \<noteq> 0" using assms by simp_all
  have e0: "0 \<le> ?e"
    using floor_log2_ge [of 0 x] assms by simp
  then have s: "ulp_exponent x = ?e - 52"
    by (simp add: ulp_exponent_def x)
  have lo: "2 powi ?e \<le> ?d"
    using round_finite_ge_grid [of 1 ?e x] floor_log2_bounds(1) [OF x(1)] s by simp
  have hi: "?d \<le> 2 powi (?e + 1)"
    using round_finite_le_grid [of x 1 "?e + 1"] floor_log2_bounds(2) [OF x(1)] s by simp
  have dpos: "0 < ?d" "\<bar>?d\<bar> = ?d"
    using lo zero_less_power_int [of "2::rat" ?e] by linarith+
  show ?thesis
  proof (cases "?d = 2 powi (?e + 1)")
    case True
    have "ulp_exponent ?d = ?e + 1 - 52"
      using e0 by (simp add: True ulp_exponent_def floor_log2_power)
    then have "ulp_exponent ?d \<le> ?e + 1" by simp
    moreover have "?d = of_int 1 * 2 powi (?e + 1)" using True by simp
    ultimately show ?thesis by (rule round_finite_exact [rotated])
  next
    case False
    with hi have "?d < 2 powi (?e + 1)" by simp
    with lo have "floor_log2 ?d = ?e" by (intro floor_log2_eqI)
    then have "ulp_exponent ?d = ?e - 52"
      using e0 by (simp add: ulp_exponent_def dpos)
    then have "ulp_exponent ?d \<le> ulp_exponent x" by (simp add: s)
    moreover have "?d = of_int (round_half_even (x / 2 powi ulp_exponent x)) * 2 powi ulp_exponent x"
      using x(3) by (simp add: round_finite_def)
    ultimately show ?thesis by (rule round_finite_exact [rotated])
  qed
qed

text \<open>Dividing a representable number of at least 1 by \<open>2 ^ 20\<close> is exact.\<close>

lemma round_finite_mebi:
  assumes "round_finite d = d" and "1 \<le> d"
  shows "round_finite (d / 2 ^ 20) = d / 2 ^ 20"
proof -
  let ?e = "floor_log2 d"
  have d: "0 < d" "\<bar>d\<bar> = d" "d \<noteq> 0" using assms(2) by simp_all
  have e0: "0 \<le> ?e"
    using floor_log2_ge [of 0 d] assms(2) by simp
  have s: "ulp_exponent d = ?e - 52"
    using e0 by (simp add: ulp_exponent_def d)
  have p20: "(2::rat) powi (?e - 20) = 2 powi ?e / 2 ^ 20"
    "(2::rat) powi (?e - 20 + 1) = 2 powi (?e + 1) / 2 ^ 20"
  proof -
    show "(2::rat) powi (?e - 20) = 2 powi ?e / 2 ^ 20"
      by (simp add: power_int_diff)
    have "?e - 20 + 1 = ?e + 1 - 20" by simp
    then have "(2::rat) powi (?e - 20 + 1) = 2 powi (?e + 1 - 20)" by (simp only:)
    also have "\<dots> = 2 powi (?e + 1) / 2 powi 20"
      by (rule power_int_diff) simp
    finally show "(2::rat) powi (?e - 20 + 1) = 2 powi (?e + 1) / 2 ^ 20" by simp
  qed
  have "floor_log2 (d / 2 ^ 20) = ?e - 20"
  proof (rule floor_log2_eqI)
    have "2 powi ?e / 2 ^ 20 \<le> d / 2 ^ 20"
      using floor_log2_bounds(1) [OF d(1)] by (rule divide_right_mono) simp
    then show "2 powi (?e - 20) \<le> d / 2 ^ 20"
      by (simp only: p20)
    have "d / 2 ^ 20 < 2 powi (?e + 1) / 2 ^ 20"
      using floor_log2_bounds(2) [OF d(1)] by (rule divide_strict_right_mono) simp
    then show "d / 2 ^ 20 < 2 powi (?e - 20 + 1)"
      by (simp only: p20)
  qed
  moreover have "\<bar>d / 2 ^ 20\<bar> = d / 2 ^ 20" using d(1) by simp
  ultimately have "ulp_exponent (d / 2 ^ 20) = ?e - 20 - 52"
    using e0 by (simp add: ulp_exponent_def)
  then have "ulp_exponent (d / 2 ^ 20) \<le> ulp_exponent d - 20"
    by (simp add: s)
  moreover have "d / 2 ^ 20 = of_int (round_half_even (d / 2 powi ulp_exponent d)) * 2 powi (ulp_exponent d - 20)"
  proof -
    have "d = of_int (round_half_even (d / 2 powi ulp_exponent d)) * 2 powi ulp_exponent d"
      using assms(1) d(3) by (simp add: round_finite_def)
    then have "d / 2 ^ 20 = of_int (round_half_even (d / 2 powi ulp_exponent d)) * 2 powi ulp_exponent d / 2 ^ 20"
      by simp
    then show ?thesis
      by (simp add: power_int_diff)
  qed
  ultimately show ?thesis by (rule round_finite_exact [rotated])
qed

lemma round_double_mebi: "round_double 1048576 = Finite 1048576"
  using round_double_nat_exact [of 1048576] by simp

lemma dec_digit: "n < 10 \<Longrightarrow> dec n = [digit_char n]"
  by (simp add: dec.simps [of n])

lemma mebi_error:
  fixes d x :: rat
  assumes "\<bar>d - x\<bar> \<le> 1024"
  shows "\<bar>d / 1048576 - x / 1048576\<bar> \<le> 1 / 1024"
  using assms by linarith

lemma tenth_error:
  fixes r q :: rat
  assumes "\<bar>r - q * 10\<bar> \<le> 1 / 2"
  shows "\<bar>r / 10 - q\<bar> \<le> 1 / 20"
  using assms by linarith

lemma mebibytes_exact:
  "double_div (double_of_u64 bytes) (double_mul (Finite 1024) (Finite 1024))
     = Finite (round_finite (of_nat (unat bytes)) / 2 ^ 20)"
proof -
  let ?x = "of_nat (unat bytes) :: rat"
  let ?d = "round_finite ?x"
  have d: "0 \<le> ?d" "?d \<le> 2 ^ 64" by (rule double_of_u64_bounds)+
  have q0: "0 \<le> ?d / 2 ^ 20" using d by simp
  have q1: "?d / 2 ^ 20 \<le> 2 ^ 64"
  proof -
    have "?d / 2 ^ 20 \<le> ?d / 1"
      using d(1) by (intro divide_left_mono) simp_all
    with d(2) show ?thesis by simp
  qed
  have ex: "round_finite (?d / 2 ^ 20) = ?d / 2 ^ 20"
  proof (cases "bytes = 0")
    case True
    then show ?thesis by (simp add: round_finite_def)
  next
    case False
    then have "1 \<le> unat bytes" by (simp add: unat_gt_0 Suc_le_eq)
    then have x1: "1 \<le> ?x" by (metis of_nat_1 of_nat_le_iff)
    show ?thesis
      using round_finite_idem [OF x1] round_finite_ge_one [OF x1] by (rule round_finite_mebi)
  qed
  have "round_double (?d / 2 ^ 20) = Finite (?d / 2 ^ 20)"
    using round_double_finite [OF q0 q1] ex by simp
  then show ?thesis
    by (simp add: double_of_u64_finite round_double_mebi)
qed

lemma double_of_u64_error:
  "\<bar>round_finite (of_nat (unat (w::u64))) - of_nat (unat w)\<bar> \<le> 2 ^ 10"
proof (cases "w = 0")
  case True
  then show ?thesis by (simp add: round_finite_def)
next
  case False
  let ?x = "of_nat (unat w) :: rat"
  have "unat w \<noteq> 0" using False by (simp add: unat_eq_0)
  then have x0: "?x \<noteq> 0" by simp
  have "unat w < 2 ^ 64" using unsigned_less [of w] by simp
  then have "unat w < 18446744073709551616" by simp
  then have "\<bar>?x\<bar> < 2 powi 64" by simp
  from ulp_exponent_le [OF x0 this] have "ulp_exponent ?x \<le> 11" by simp
  then have "(2::rat) powi ulp_exponent ?x \<le> 2 powi 11"
    by (intro power_int_increasing) simp_all
  with round_finite_error [of ?x] show ?thesis by simp
qed

lemma round_half_even_nonneg: "0 \<le> x \<Longrightarrow> 0 \<le> round_half_even x"
  using round_half_even_mono [of 0 x] round_half_even_of_int [of 0] by simp

text \<open>
  Claim C10. For every byte count \<open>format_memory_mib\<close> prints a decimal integer, a
  point and exactly one more digit. The division by 1048576 is exact in binary64, so the
  number printed is the byte count over 1048576 rounded to one decimal, within
  \<open>1 / 20\<close> of it whenever the byte count is below \<open>2 ^ 53\<close> and converts to a double
  without rounding, and within \<open>1 / 20 + 1 / 1024\<close> in every case. 1048576 bytes print
  as \<open>1.0\<close> and 1572864 bytes as \<open>1.5\<close>.
\<close>

theorem format_memory_mib_one_decimal:
  "(\<exists>n. format_memory_mib bytes = dec (n div 10) @ ''.'' @ [digit_char (n mod 10)]
       \<and> \<bar>of_nat n / 10 - (of_nat (unat bytes) :: rat) / 1048576\<bar> \<le> 1 / 20 + 1 / 1024
       \<and> (unat bytes < 2 ^ 53
            \<longrightarrow> \<bar>of_nat n / 10 - (of_nat (unat bytes) :: rat) / 1048576\<bar> \<le> 1 / 20))
   \<and> format_memory_mib 1048576 = ''1.0''
   \<and> format_memory_mib 1572864 = ''1.5''"
proof (intro conjI)
  let ?x = "of_nat (unat bytes) :: rat"
  let ?d = "round_finite ?x"
  let ?q = "?d / 2 ^ 20"
  let ?n = "nat (round_half_even (?q * 10))"
  have d0: "0 \<le> ?d" by (rule double_of_u64_bounds)
  then have q0: "0 \<le> ?q" by simp
  then have r0: "0 \<le> round_half_even (?q * 10)"
    by (intro round_half_even_nonneg) simp
  have out: "format_memory_mib bytes = dec (?n div 10) @ ''.'' @ [digit_char (?n mod 10)]"
    using q0 by (simp only: format_memory_mib_def Let_def mebibytes_exact)
      (simp add: put_fixed_1_def Let_def)
  have n: "(of_nat ?n :: rat) = of_int (round_half_even (?q * 10))"
    using r0 by simp
  have e1: "\<bar>of_nat ?n / 10 - ?q\<bar> \<le> 1 / 20"
  proof -
    have "\<bar>of_int (round_half_even (?q * 10)) - ?q * 10\<bar> \<le> 1 / 2"
      by (rule round_half_even_error)
    then show ?thesis unfolding n by (rule tenth_error)
  qed
  have e2: "\<bar>?q - ?x / 1048576\<bar> \<le> 1 / 1024"
  proof -
    have "\<bar>?d - ?x\<bar> \<le> 1024"
      using double_of_u64_error [of bytes] by simp
    then have "\<bar>?d / 1048576 - ?x / 1048576\<bar> \<le> 1 / 1024"
      by (rule mebi_error)
    then show ?thesis by simp
  qed
  have e3: "\<bar>of_nat ?n / 10 - ?x / 1048576\<bar> \<le> 1 / 20" if "unat bytes < 2 ^ 53"
  proof -
    from round_double_nat_exact [OF that] have "?d = ?x"
      using double_of_u64_finite [of bytes] by (simp add: double_of_u64_def)
    with e1 show ?thesis by simp
  qed
  show "\<exists>n. format_memory_mib bytes = dec (n div 10) @ ''.'' @ [digit_char (n mod 10)]
       \<and> \<bar>of_nat n / 10 - ?x / 1048576\<bar> \<le> 1 / 20 + 1 / 1024
       \<and> (unat bytes < 2 ^ 53 \<longrightarrow> \<bar>of_nat n / 10 - ?x / 1048576\<bar> \<le> 1 / 20)"
  proof (intro exI [of _ ?n] conjI impI)
    show "format_memory_mib bytes = dec (?n div 10) @ ''.'' @ [digit_char (?n mod 10)]"
      by (rule out)
    show "\<bar>of_nat ?n / 10 - ?x / 1048576\<bar> \<le> 1 / 20 + 1 / 1024"
      using e1 e2 by linarith
    show "\<bar>of_nat ?n / 10 - ?x / 1048576\<bar> \<le> 1 / 20" if "unat bytes < 2 ^ 53"
      using that by (rule e3)
  qed
next
  have "round_finite (of_nat (unat (1048576 :: u64))) = 1048576"
    using round_double_nat_exact [of 1048576] double_of_u64_finite [of 1048576]
    by (simp add: double_of_u64_def)
  then show "format_memory_mib 1048576 = ''1.0''"
    by (simp only: format_memory_mib_def Let_def mebibytes_exact)
      (simp add: put_fixed_1_def Let_def round_half_even_def dec_digit digit_char_def)
next
  have "round_finite (of_nat (unat (1572864 :: u64))) = 1572864"
    using round_double_nat_exact [of 1572864] double_of_u64_finite [of 1572864]
    by (simp add: double_of_u64_def)
  then show "format_memory_mib 1572864 = ''1.5''"
    by (simp only: format_memory_mib_def Let_def mebibytes_exact)
      (simp add: put_fixed_1_def Let_def round_half_even_def dec_digit digit_char_def)
qed

theorem format_memory_mib_one_decimal_witness:
  "unat (1572864 :: u64) < 2 ^ 53
   \<and> (\<exists>n. format_memory_mib 1572864 = dec (n div 10) @ ''.'' @ [digit_char (n mod 10)]
        \<and> \<bar>of_nat n / 10 - (of_nat (unat (1572864 :: u64)) :: rat) / 1048576\<bar> \<le> 1 / 20)"
proof -
  have h: "unat (1572864 :: u64) < 2 ^ 53"
    by simp
  from format_memory_mib_one_decimal [of 1572864] obtain n where
    "format_memory_mib 1572864 = dec (n div 10) @ ''.'' @ [digit_char (n mod 10)]"
    "unat (1572864 :: u64) < 2 ^ 53
      \<longrightarrow> \<bar>of_nat n / 10 - (of_nat (unat (1572864 :: u64)) :: rat) / 1048576\<bar> \<le> 1 / 20"
    by blast
  with h show ?thesis
    by blast
qed

subsection \<open>Decimal numbers in text\<close>

lemma digit_char_props:
  assumes "d < 10"
  shows "isdigit (digit_char d)" and "digit_value (digit_char d) = d"
    and "\<not> isspace (digit_char d)" and "digit_char d \<noteq> CHR ''-''" and "digit_char d \<noteq> CHR ''+''"
    and "digit_char d \<noteq> CHR ''.''" and "digit_char d \<noteq> CHR 0x0A"
proof -
  from assms have "d \<in> {0, 1, 2, 3, 4, 5, 6, 7, 8, 9}"
    by auto
  then show "isdigit (digit_char d)" and "digit_value (digit_char d) = d"
    and "\<not> isspace (digit_char d)" and "digit_char d \<noteq> CHR ''-''" and "digit_char d \<noteq> CHR ''+''"
    and "digit_char d \<noteq> CHR ''.''" and "digit_char d \<noteq> CHR 0x0A"
    by (auto simp: digit_char_def isdigit_def digit_value_def isspace_def)
qed

lemma dec_digits: "list_all isdigit (dec n)"
proof (induction n rule: dec.induct)
  case (1 n)
  then show ?case
    by (cases "n < 10") (simp_all add: dec.simps [of n] digit_char_props)
qed

lemma dec_not_empty: "dec n \<noteq> []"
  by (cases "n < 10") (simp_all add: dec.simps [of n])

lemma digits_value_snoc: "digits_value (ds @ [c]) = 10 * digits_value ds + digit_value c"
  by (simp add: digits_value_def)

lemma digits_value_dec: "digits_value (dec n) = n"
proof (induction n rule: dec.induct)
  case (1 n)
  show ?case
  proof (cases "n < 10")
    case True
    then show ?thesis
      by (simp add: dec.simps [of n] digits_value_def digit_char_props)
  next
    case False
    with 1 show ?thesis
      by (simp add: dec.simps [of n] digits_value_snoc digit_char_props)
  qed
qed

lemma hd_dec_digit: "isdigit (hd (dec n))"
  using dec_digits [of n] dec_not_empty [of n] by (cases "dec n") simp_all

lemma isdigit_not_space: "isdigit c \<Longrightarrow> \<not> isspace c"
  by (auto simp: isdigit_def isspace_def)

lemma isdigit_not_sign: "isdigit c \<Longrightarrow> c \<noteq> CHR ''-'' \<and> c \<noteq> CHR ''+''"
  by (auto simp: isdigit_def)

text \<open>A run of digits followed by something that is not a digit is taken whole.\<close>

lemma takeWhile_digits:
  assumes "list_all isdigit ds" and "rest = [] \<or> \<not> isdigit (hd rest)"
  shows "takeWhile isdigit (ds @ rest) = ds" and "dropWhile isdigit (ds @ rest) = rest"
proof -
  have ds: "\<forall>c\<in>set ds. isdigit c"
    using assms(1) by (simp add: list_all_iff)
  have r: "takeWhile isdigit rest = []" "dropWhile isdigit rest = rest"
    using assms(2) by (cases rest; simp)+
  show "takeWhile isdigit (ds @ rest) = ds"
    using ds r by (simp add: takeWhile_append2)
  show "dropWhile isdigit (ds @ rest) = rest"
    using ds r by (simp add: dropWhile_append2)
qed

lemma dropWhile_spaces:
  assumes "list_all isspace ws" and "rest = [] \<or> \<not> isspace (hd rest)"
  shows "dropWhile isspace (ws @ rest) = rest"
proof -
  have "\<forall>c\<in>set ws. isspace c"
    using assms(1) by (simp add: list_all_iff)
  moreover have "dropWhile isspace rest = rest"
    using assms(2) by (cases rest) simp_all
  ultimately show ?thesis
    by (simp add: dropWhile_append2)
qed

text \<open>Reading back a number that was written in decimal after white space.\<close>

lemma get_u64_dec:
  assumes "list_all isspace ws" and "n < 2 ^ 64" and "rest = [] \<or> \<not> isdigit (hd rest)"
  shows "get_u64 (ws @ dec n @ rest) = Extracted (of_nat n) rest"
proof -
  let ?s1 = "dec n @ rest"
  have hd1: "hd ?s1 = hd (dec n)"
    using dec_not_empty [of n] by simp
  have "\<not> isspace (hd ?s1)"
    using hd_dec_digit [of n] isdigit_not_space by (simp add: hd1)
  with assms(1) have s1: "dropWhile isspace (ws @ ?s1) = ?s1"
    by (intro dropWhile_spaces) simp_all
  have ne: "?s1 \<noteq> []"
    using dec_not_empty [of n] by simp
  have sign: "hd ?s1 \<noteq> CHR ''-''" "hd ?s1 \<noteq> CHR ''+''"
    using hd_dec_digit [of n] isdigit_not_sign by (simp_all add: hd1)
  have tk: "takeWhile isdigit ?s1 = dec n" "dropWhile isdigit ?s1 = rest"
    using takeWhile_digits [OF dec_digits assms(3)] by simp_all
  have "\<not> 2 ^ 64 \<le> n"
    using assms(2) by simp
  then show ?thesis
    unfolding get_u64_def s1 Let_def
    using ne sign dec_not_empty [of n] by (simp add: tk digits_value_dec)
qed

subsection \<open>The CPU line\<close>

lemma sample_cpu_succeeds_iff:
  "fst (sample_cpu stat snapshot) \<longleftrightarrow>
     (\<exists>content. stat = Some content \<and> content \<noteq> [] \<and> leading_token (first_line content) = ''cpu'')"
proof (cases stat)
  case None
  then show ?thesis by (simp add: sample_cpu_def)
next
  case (Some content)
  show ?thesis
  proof (cases "content = []")
    case True
    with Some show ?thesis by (simp add: sample_cpu_def getline_def)
  next
    case False
    let ?line = "first_line content"
    have gl: "getline content = Extracted ?line (drop 1 (dropWhile (\<lambda>c. c \<noteq> CHR 0x0A) content))"
      using False by (simp add: getline_def first_line_def)
    show ?thesis
    proof (cases "dropWhile isspace ?line = []")
      case True
      then have "get_string ?line = Failed None"
        by (simp add: get_string_def)
      moreover have "leading_token ?line = []"
        unfolding leading_token_def True by simp
      ultimately have "get_string ?line = Failed None" "leading_token ?line = []"
        by simp_all
      with Some False gl show ?thesis
        by (simp add: sample_cpu_def)
    next
      case ne: False
      then have "get_string ?line
          = Extracted (leading_token ?line) (dropWhile (\<lambda>c. \<not> isspace c) (dropWhile isspace ?line))"
        by (simp add: get_string_def leading_token_def Let_def)
      with Some False gl show ?thesis
        by (simp add: sample_cpu_def Let_def)
    qed
  qed
qed

lemma sample_cpu_failure_keeps_snapshot:
  "\<not> fst (sample_cpu stat snapshot) \<Longrightarrow> snd (sample_cpu stat snapshot) = snapshot"
  by (auto simp: sample_cpu_def Let_def split: option.splits extraction.splits prod.splits if_splits)

lemma read_values_done: "read_values i None vals = vals"
  by (simp add: read_values.simps [of i None vals])

lemma read_values_full: "read_values 10 iss vals = vals"
  by (simp add: read_values.simps [of 10 iss vals])

lemma inline_space_isspace: "list_all inline_space ws \<Longrightarrow> list_all isspace ws"
  by (induction ws) (simp_all add: inline_space_def)

lemma fields_text_start:
  assumes "list_all field_ok fs" and "list_all inline_space tail"
  shows "concat (map field_text fs) @ tail = [] \<or> isspace (hd (concat (map field_text fs) @ tail))"
proof (cases fs)
  case Nil
  with assms(2) show ?thesis
    by (cases tail) (simp_all add: inline_space_def)
next
  case (Cons f fs')
  with assms(1) have "field_ok f"
    by simp
  then have "fst f \<noteq> []" "list_all inline_space (fst f)"
    by (simp_all add: field_ok_def)
  then have "isspace (hd (fst f))"
    by (cases "fst f") (simp_all add: inline_space_def)
  with \<open>fst f \<noteq> []\<close> Cons show ?thesis
    by (simp add: field_text_def)
qed

lemma read_values_fields:
  assumes "list_all field_ok fs" and "list_all inline_space tail"
    and "length vals = 10" and "i \<le> 10"
  shows "read_values i (Some (concat (map field_text fs) @ tail)) vals
    = take i vals @ take (10 - i) (map field_value fs @ drop (i + length fs) vals)"
  using assms
proof (induction fs arbitrary: i vals)
  case Nil
  have "get_u64 tail = Failed None"
    using inline_space_isspace [OF Nil.prems(2)]
    by (simp add: get_u64_def list_all_iff)
  then have "read_values i (Some tail) vals = vals"
    by (simp add: read_values.simps [of i "Some tail" vals] read_values_done)
  moreover have "take i vals @ take (10 - i) (drop i vals) = vals"
    using Nil.prems(3,4) by simp
  ultimately show ?case by simp
next
  case (Cons f fs)
  let ?rest = "concat (map field_text fs) @ tail"
  show ?case
  proof (cases "i = 10")
    case True
    with Cons.prems(3) show ?thesis
      by (simp add: read_values_full)
  next
    case False
    with Cons.prems(4) have i: "i < 10" by simp
    from Cons.prems(1) have "field_ok f" and fs: "list_all field_ok fs"
      by simp_all
    then have f: "fst f \<noteq> []" "list_all inline_space (fst f)" "snd f < 2 ^ 64"
      by (simp_all add: field_ok_def)
    have "?rest = [] \<or> \<not> isdigit (hd ?rest)"
      using fields_text_start [OF fs Cons.prems(2)] isdigit_not_space by blast
    then have "get_u64 (fst f @ dec (snd f) @ ?rest) = Extracted (of_nat (snd f)) ?rest"
      using inline_space_isspace [OF f(2)] f(3) by (intro get_u64_dec)
    then have step: "read_values i (Some (concat (map field_text (f # fs)) @ tail)) vals
        = read_values (i + 1) (Some ?rest) (vals[i := field_value f])"
      using i by (simp add: read_values.simps [of i _ vals] field_text_def field_value_def)
    have "read_values (i + 1) (Some ?rest) (vals[i := field_value f])
        = take (i + 1) (vals[i := field_value f])
          @ take (10 - (i + 1)) (map field_value fs @ drop (i + 1 + length fs) (vals[i := field_value f]))"
      using fs Cons.prems(2,3) i by (intro Cons.IH) simp_all
    also have "take (i + 1) (vals[i := field_value f]) = take i vals @ [field_value f]"
      using i Cons.prems(3) by (simp add: take_Suc_conv_app_nth)
    also have "drop (i + 1 + length fs) (vals[i := field_value f]) = drop (i + 1 + length fs) vals"
      by simp
    finally have "read_values (i + 1) (Some ?rest) (vals[i := field_value f])
        = take i vals @ field_value f # take (10 - (i + 1)) (map field_value fs @ drop (i + 1 + length fs) vals)"
      by simp
    moreover have "take (10 - i) (map field_value (f # fs) @ drop (i + length (f # fs)) vals)
        = field_value f # take (10 - (i + 1)) (map field_value fs @ drop (i + 1 + length fs) vals)"
      using i by (simp add: take_Cons')
    ultimately show ?thesis
      by (simp only: step)
  qed
qed

lemma foldl_plus_sum_list: "foldl (+) a xs = a + sum_list (xs :: u64 list)"
  by (induction xs arbitrary: a) (simp_all add: add.assoc)

lemma no_newline_field_text:
  assumes "field_ok f"
  shows "CHR 0x0A \<notin> set (field_text f)"
proof -
  have "c \<noteq> CHR 0x0A" if "c \<in> set (dec n)" for c n
  proof -
    from that dec_digits [of n] have "isdigit c"
      by (simp add: list_all_iff)
    then show ?thesis
      by (auto simp: isdigit_def)
  qed
  moreover have "c \<noteq> CHR 0x0A" if "c \<in> set (fst f)" for c
    using that assms by (auto simp: field_ok_def list_all_iff inline_space_def)
  ultimately show ?thesis
    by (auto simp: field_text_def)
qed

lemma no_newline_fields:
  assumes "list_all field_ok fs"
  shows "CHR 0x0A \<notin> set (concat (map field_text fs))"
  using assms by (induction fs) (simp_all add: no_newline_field_text)

lemma no_newline_spaces:
  assumes "list_all inline_space ws"
  shows "CHR 0x0A \<notin> set ws"
  using assms by (auto simp: list_all_iff inline_space_def)

lemma first_line_append:
  assumes "CHR 0x0A \<notin> set line" and "rest = [] \<or> hd rest = CHR 0x0A"
  shows "first_line (line @ rest) = line"
proof -
  have "\<forall>c\<in>set line. c \<noteq> CHR 0x0A"
    using assms(1) by auto
  moreover have "takeWhile (\<lambda>c. c \<noteq> CHR 0x0A) rest = []"
    using assms(2) by (cases rest) simp_all
  ultimately show ?thesis
    by (simp add: first_line_def takeWhile_append2)
qed

lemma get_string_cpu:
  assumes "list_all isspace ws" and "r = [] \<or> isspace (hd r)"
  shows "get_string (ws @ ''cpu'' @ r) = Extracted ''cpu'' r"
proof -
  have "\<not> isspace (hd (''cpu'' @ r))"
    by (simp add: isspace_def)
  with assms(1) have d: "dropWhile isspace (ws @ ''cpu'' @ r) = ''cpu'' @ r"
    by (intro dropWhile_spaces) simp_all
  have r: "takeWhile (\<lambda>c. \<not> isspace c) r = []" "dropWhile (\<lambda>c. \<not> isspace c) r = r"
    using assms(2) by (cases r; simp)+
  have c: "\<not> isspace CHR ''c''" "\<not> isspace CHR ''p''" "\<not> isspace CHR ''u''"
    by (simp_all add: isspace_def)
  show ?thesis
    unfolding get_string_def d Let_def by (simp add: c r)
qed

lemma sample_cpu_fields:
  assumes "list_all inline_space ws" and "list_all field_ok fs" and "list_all inline_space tail"
    and "rest = [] \<or> hd rest = CHR 0x0A"
  shows "sample_cpu (Some (ws @ ''cpu'' @ concat (map field_text fs) @ tail @ rest)) snapshot
    = (True, \<lparr>idle_ticks = pad_fields (map field_value fs) ! 3 + pad_fields (map field_value fs) ! 4,
              total_ticks = sum_list (pad_fields (map field_value fs))\<rparr>)"
proof -
  let ?r = "concat (map field_text fs) @ tail"
  let ?line = "ws @ ''cpu'' @ ?r"
  let ?content = "?line @ rest"
  have nl: "CHR 0x0A \<notin> set ?line"
    using no_newline_spaces [OF assms(1)] no_newline_spaces [OF assms(3)]
      no_newline_fields [OF assms(2)] by simp
  have fl: "first_line ?content = ?line"
    using nl assms(4) by (rule first_line_append)
  have gl: "getline ?content = Extracted ?line (drop 1 (dropWhile (\<lambda>c. c \<noteq> CHR 0x0A) ?content))"
    using fl by (simp add: getline_def first_line_def)
  have gs: "get_string ?line = Extracted ''cpu'' ?r"
    using inline_space_isspace [OF assms(1)] fields_text_start [OF assms(2,3)]
    by (rule get_string_cpu)
  have rv: "read_values 0 (Some ?r) (replicate 10 0) = pad_fields (map field_value fs)"
    using read_values_fields [OF assms(2,3), of "replicate 10 0" 0]
    by (simp add: pad_fields_def)
  have "sample_cpu (Some ?content) snapshot
      = (True, snapshot\<lparr>idle_ticks := pad_fields (map field_value fs) ! 3 + pad_fields (map field_value fs) ! 4,
              total_ticks := sum_list (pad_fields (map field_value fs))\<rparr>)"
    unfolding sample_cpu_def option.case gl extraction.case gs
    by (simp add: rv foldl_plus_sum_list Let_def)
  then show ?thesis
    by simp
qed

text \<open>
  Claim C3. \<open>sample_cpu\<close> succeeds exactly when the file could be opened, is not
  empty, and the leading token of its first line is \<open>cpu\<close>; a failure leaves the
  snapshot as it was. When the label is followed by fields, each a decimal number below
  \<open>2 ^ 64\<close> after white space, the first ten of them are read, the missing ones count
  as zero, \<open>total_ticks\<close> is the sum of the ten values and \<open>idle_ticks\<close> the sum of
  the fourth and the fifth, both modulo \<open>2 ^ 64\<close>.
\<close>

theorem sample_cpu_parses_first_line:
  "(fst (sample_cpu stat snapshot) \<longleftrightarrow>
      (\<exists>content. stat = Some content \<and> content \<noteq> [] \<and> leading_token (first_line content) = ''cpu''))
   \<and> (\<not> fst (sample_cpu stat snapshot) \<longrightarrow> snd (sample_cpu stat snapshot) = snapshot)
   \<and> (list_all inline_space ws \<and> list_all field_ok fs \<and> list_all inline_space tail
        \<and> (rest = [] \<or> hd rest = CHR 0x0A)
      \<longrightarrow> sample_cpu (Some (ws @ ''cpu'' @ concat (map field_text fs) @ tail @ rest)) snapshot
          = (True,
             \<lparr>idle_ticks = pad_fields (map field_value fs) ! 3 + pad_fields (map field_value fs) ! 4,
              total_ticks = sum_list (pad_fields (map field_value fs))\<rparr>))"
  using sample_cpu_succeeds_iff [of stat snapshot] sample_cpu_failure_keeps_snapshot [of stat snapshot]
    sample_cpu_fields [of ws fs tail rest snapshot]
  by blast

theorem sample_cpu_parses_first_line_witness:
  "\<not> fst (sample_cpu None \<lparr>idle_ticks = 1, total_ticks = 2\<rparr>)
   \<and> snd (sample_cpu None \<lparr>idle_ticks = 1, total_ticks = 2\<rparr>) = \<lparr>idle_ticks = 1, total_ticks = 2\<rparr>
   \<and> list_all field_ok
        [(''  '', 2255), ('' '', 34), ('' '', 2290), ('' '', 22625563), ('' '', 6290),
         ('' '', 127), ('' '', 456), ('' '', 0), ('' '', 0), ('' '', 0)]
   \<and> sample_cpu
        (Some (''cpu  2255 34 2290 22625563 6290 127 456 0 0 0'' @ CHR 0x0A # ''cpu0 1 2 3''))
        \<lparr>idle_ticks = 1, total_ticks = 2\<rparr>
       = (True, \<lparr>idle_ticks = 22631853, total_ticks = 22637015\<rparr>)"
proof -
  let ?fs = "[(''  '', 2255), ('' '', 34), ('' '', 2290), ('' '', 22625563), ('' '', 6290),
         ('' '', 127), ('' '', 456), ('' '', 0), ('' '', 0), ('' '', 0)] :: (string \<times> nat) list"
  let ?snap = "\<lparr>idle_ticks = 1, total_ticks = 2\<rparr>"
  let ?rest = "CHR 0x0A # ''cpu0 1 2 3''"
  have ok: "list_all field_ok ?fs"
    by (simp add: field_ok_def inline_space_def isspace_def)
  have rendered: "concat (map field_text ?fs) = ''  2255 34 2290 22625563 6290 127 456 0 0 0''"
    by (simp add: field_text_def dec.simps digit_char_def)
  have vals: "pad_fields (map field_value ?fs) = [2255, 34, 2290, 22625563, 6290, 127, 456, 0, 0, 0]"
    by (simp add: pad_fields_def field_value_def)
  have none: "\<not> fst (sample_cpu None ?snap)"
    by (simp add: sample_cpu_def)
  from sample_cpu_parses_first_line [of None ?snap "[]" ?fs "[]" ?rest] none ok
  have "snd (sample_cpu None ?snap) = ?snap"
    and "sample_cpu (Some ([] @ ''cpu'' @ concat (map field_text ?fs) @ [] @ ?rest)) ?snap
      = (True, \<lparr>idle_ticks = pad_fields (map field_value ?fs) ! 3 + pad_fields (map field_value ?fs) ! 4,
          total_ticks = sum_list (pad_fields (map field_value ?fs))\<rparr>)"
    by simp_all
  then show ?thesis
    using none ok unfolding rendered vals by simp
qed

subsection \<open>The memory file\<close>

lemma get_string_shorter:
  assumes "get_string a = Extracted w b"
  shows "length b < length a"
proof -
  let ?a1 = "dropWhile isspace a"
  from assms have ne: "?a1 \<noteq> []" and b: "b = dropWhile (\<lambda>c. \<not> isspace c) ?a1"
    by (auto simp: get_string_def Let_def split: if_splits)
  from ne have "\<not> isspace (hd ?a1)"
    by (rule hd_dropWhile)
  with ne have "dropWhile (\<lambda>c. \<not> isspace c) ?a1 = dropWhile (\<lambda>c. \<not> isspace c) (tl ?a1)"
    by (cases ?a1) simp_all
  then have "b = dropWhile (\<lambda>c. \<not> isspace c) (tl ?a1)"
    by (simp only: b)
  then have "length b \<le> length (tl ?a1)"
    by (simp only: length_dropWhile_le)
  also have "\<dots> < length ?a1"
    using ne by simp
  also have "\<dots> \<le> length a"
    by (rule length_dropWhile_le)
  finally show ?thesis .
qed

lemma get_u64_not_longer:
  assumes "get_u64 a = Extracted v b"
  shows "length b \<le> length a"
proof -
  let ?a1 = "dropWhile isspace a"
  let ?a2 = "if hd ?a1 = CHR ''-'' \<or> hd ?a1 = CHR ''+'' then tl ?a1 else ?a1"
  from assms have "b = dropWhile isdigit ?a2"
    by (auto simp: get_u64_def Let_def split: if_splits)
  then have "length b \<le> length ?a2"
    by (simp only: length_dropWhile_le)
  also have "\<dots> \<le> length ?a1"
    by simp
  also have "\<dots> \<le> length a"
    by (rule length_dropWhile_le)
  finally show ?thesis .
qed

lemma get_triple_shorter:
  assumes "get_triple s = Some (t, rest)"
  shows "length rest < length s"
proof -
  from assms obtain key s1 where k: "get_string s = Extracted key s1"
    by (auto simp: get_triple_def split: extraction.splits)
  with assms obtain v s2 where u: "get_u64 s1 = Extracted v s2"
    by (auto simp: get_triple_def split: extraction.splits)
  with assms k obtain unit where w: "get_string s2 = Extracted unit rest"
    by (auto simp: get_triple_def split: extraction.splits)
  from get_string_shorter [OF k] get_u64_not_longer [OF u] get_string_shorter [OF w]
  show ?thesis by linarith
qed

lemma triples_upto_enough:
  "length s \<le> k \<Longrightarrow> triples_upto k s = triples_upto (length s) s"
proof (induction k arbitrary: s rule: less_induct)
  case (less k)
  show ?case
  proof (cases "get_triple s")
    case None
    then show ?thesis
      by (cases k; cases "length s") simp_all
  next
    case (Some p)
    obtain t rest where p: "p = (t, rest)" by (cases p)
    from Some p get_triple_shorter have shorter: "length rest < length s" by blast
    with less.prems obtain k' where k: "k = Suc k'" and r: "length rest \<le> k'"
      by (cases k) auto
    from shorter obtain n where n: "length s = Suc n" and rn: "length rest \<le> n"
      by (cases "length s") auto
    have "triples_upto k' rest = triples_upto (length rest) rest"
      using r by (intro less.IH) (simp add: k)
    moreover have "triples_upto n rest = triples_upto (length rest) rest"
      using rn less.prems n by (intro less.IH) simp_all
    ultimately show ?thesis
      by (simp add: k n Some p)
  qed
qed

lemma meminfo_triples_end: "get_triple s = None \<Longrightarrow> meminfo_triples s = []"
  by (cases "length s") (simp_all add: meminfo_triples_def)

lemma meminfo_triples_next:
  assumes "get_triple s = Some (t, rest)"
  shows "meminfo_triples s = t # meminfo_triples rest"
proof -
  from get_triple_shorter [OF assms] obtain n where n: "length s = Suc n" and rn: "length rest \<le> n"
    by (cases "length s") auto
  from triples_upto_enough [OF rn] show ?thesis
    by (simp add: meminfo_triples_def n assms)
qed

lemma scan_meminfo_triples:
  "scan_meminfo s mem_total mem_available = scan_triples (meminfo_triples s) mem_total mem_available"
proof (induction s mem_total mem_available rule: scan_meminfo.induct)
  case (1 meminfo mem_total mem_available)
  show ?case
  proof (cases "get_triple meminfo")
    case None
    then show ?thesis
      by (simp add: scan_meminfo.simps [of meminfo] meminfo_triples_end)
  next
    case (Some p)
    obtain key v unit rest where p: "p = ((key, v, unit), rest)"
      by (cases p) auto
    note step = meminfo_triples_next [OF Some [unfolded p]]
    define mt where "mt = (if key = ''MemTotal:'' then v * 1024 else mem_total)"
    define ma where "ma = (if key = ''MemTotal:'' then mem_available
      else if key = ''MemAvailable:'' then v * 1024 else mem_available)"
    have code: "scan_meminfo meminfo mem_total mem_available
        = (if mt \<noteq> 0 \<and> ma \<noteq> 0 then (mt, ma) else scan_meminfo rest mt ma)"
      by (simp add: scan_meminfo.simps [of meminfo] Some p Let_def mt_def ma_def)
    have spec: "scan_triples (meminfo_triples meminfo) mem_total mem_available
        = (if mt \<noteq> 0 \<and> ma \<noteq> 0 then (mt, ma) else scan_triples (meminfo_triples rest) mt ma)"
      by (simp add: step Let_def mt_def ma_def)
    have "scan_meminfo rest mt ma = scan_triples (meminfo_triples rest) mt ma"
      if "\<not> (mt \<noteq> 0 \<and> ma \<noteq> 0)"
      using "1.IH" [OF Some [unfolded p] refl refl refl refl refl] that
      unfolding mt_def ma_def by blast
    then show ?thesis
      unfolding code spec by (cases "mt \<noteq> 0 \<and> ma \<noteq> 0") auto
  qed
qed

lemma scan_triples_keeps_total:
  "''MemTotal:'' \<notin> set (map fst ts) \<Longrightarrow> fst (scan_triples ts mem_total mem_available) = mem_total"
  by (induction ts mem_total mem_available rule: scan_triples.induct) (auto simp: Let_def)

lemma scan_triples_keeps_available:
  "''MemAvailable:'' \<notin> set (map fst ts)
   \<Longrightarrow> snd (scan_triples ts mem_total mem_available) = mem_available"
  by (induction ts mem_total mem_available rule: scan_triples.induct) (auto simp: Let_def)

lemma scan_triples_total:
  "count_list (map fst ts) ''MemTotal:'' \<le> 1
   \<Longrightarrow> fst (scan_triples ts 0 mem_available) = kilobytes ''MemTotal:'' ts * 1024"
proof (induction ts arbitrary: mem_available)
  case Nil
  then show ?case by (simp add: kilobytes_def)
next
  case (Cons t ts)
  obtain key v unit where t: "t = (key, v, unit)" by (cases t)
  show ?case
  proof (cases "key = ''MemTotal:''")
    case True
    with Cons.prems t have "''MemTotal:'' \<notin> set (map fst ts)"
      by (simp add: count_list_0_iff)
    from scan_triples_keeps_total [OF this] True t show ?thesis
      by (simp add: Let_def kilobytes_def)
  next
    case False
    with Cons.prems t have "count_list (map fst ts) ''MemTotal:'' \<le> 1"
      by simp
    from Cons.IH [OF this] False t show ?thesis
      by (simp add: Let_def kilobytes_def)
  qed
qed

lemma scan_triples_available:
  "count_list (map fst ts) ''MemAvailable:'' \<le> 1
   \<Longrightarrow> snd (scan_triples ts mem_total 0) = kilobytes ''MemAvailable:'' ts * 1024"
proof (induction ts arbitrary: mem_total)
  case Nil
  then show ?case by (simp add: kilobytes_def)
next
  case (Cons t ts)
  obtain key v unit where t: "t = (key, v, unit)" by (cases t)
  show ?case
  proof (cases "key = ''MemAvailable:''")
    case True
    with Cons.prems t have "''MemAvailable:'' \<notin> set (map fst ts)"
      by (simp add: count_list_0_iff)
    from scan_triples_keeps_available [OF this] True t show ?thesis
      by (simp add: Let_def kilobytes_def)
  next
    case False
    with Cons.prems t have "count_list (map fst ts) ''MemAvailable:'' \<le> 1"
      by simp
    from Cons.IH [OF this] False t show ?thesis
      by (simp add: Let_def kilobytes_def)
  qed
qed

lemma sample_memory_scan:
  "sample_memory (Meminfo (Some content)) =
     (if fst (scan_triples (meminfo_triples content) 0 0) \<noteq> 0
      then \<lparr>total_bytes = fst (scan_triples (meminfo_triples content) 0 0),
             available_bytes = snd (scan_triples (meminfo_triples content) 0 0),
             MemoryStatus.valid = True\<rparr>
      else \<lparr>total_bytes = 0, available_bytes = 0, MemoryStatus.valid = False\<rparr>)"
  by (simp add: sample_memory_def scan_meminfo_triples Let_def split: prod.splits)

lemma sample_memory_meminfo:
  assumes "count_list (map fst (meminfo_triples content)) ''MemTotal:'' \<le> 1"
    and "count_list (map fst (meminfo_triples content)) ''MemAvailable:'' \<le> 1"
  shows "sample_memory (Meminfo (Some content)) =
     (if kilobytes ''MemTotal:'' (meminfo_triples content) * 1024 \<noteq> 0
      then \<lparr>total_bytes = kilobytes ''MemTotal:'' (meminfo_triples content) * 1024,
             available_bytes = kilobytes ''MemAvailable:'' (meminfo_triples content) * 1024,
             MemoryStatus.valid = True\<rparr>
      else \<lparr>total_bytes = 0, available_bytes = 0, MemoryStatus.valid = False\<rparr>)"
  unfolding sample_memory_scan scan_triples_total [OF assms(1)] scan_triples_available [OF assms(2)]
  by (rule refl)

lemma sample_memory_no_total:
  assumes "''MemTotal:'' \<notin> set (map fst (meminfo_triples content))"
  shows "sample_memory (Meminfo (Some content))
    = \<lparr>total_bytes = 0, available_bytes = 0, MemoryStatus.valid = False\<rparr>"
  unfolding sample_memory_scan scan_triples_keeps_total [OF assms] by simp

text \<open>
  Claim C4, amended. \<open>sample_memory\<close> always returns a result. It is invalid, with
  zero fields, when the file cannot be opened or when no triple of the file has the key
  \<open>MemTotal:\<close>. When \<open>MemTotal:\<close> and \<open>MemAvailable:\<close> are each listed at most once,
  the result is valid exactly when the \<open>MemTotal:\<close> value times 1024 is not zero modulo
  \<open>2 ^ 64\<close>; then \<open>total_bytes\<close> is that product and \<open>available_bytes\<close> is the
  \<open>MemAvailable:\<close> value times 1024, which is 0 when the key is missing or its value
  is 0.
\<close>

theorem sample_memory_reads_meminfo:
  "sample_memory (Meminfo None) = \<lparr>total_bytes = 0, available_bytes = 0, MemoryStatus.valid = False\<rparr>
   \<and> (''MemTotal:'' \<notin> set (map fst (meminfo_triples content))
        \<longrightarrow> sample_memory (Meminfo (Some content))
            = \<lparr>total_bytes = 0, available_bytes = 0, MemoryStatus.valid = False\<rparr>)
   \<and> (count_list (map fst (meminfo_triples content)) ''MemTotal:'' \<le> 1
        \<and> count_list (map fst (meminfo_triples content)) ''MemAvailable:'' \<le> 1
        \<longrightarrow> sample_memory (Meminfo (Some content)) =
            (if kilobytes ''MemTotal:'' (meminfo_triples content) * 1024 \<noteq> 0
             then \<lparr>total_bytes = kilobytes ''MemTotal:'' (meminfo_triples content) * 1024,
                    available_bytes = kilobytes ''MemAvailable:'' (meminfo_triples content) * 1024,
                    MemoryStatus.valid = True\<rparr>
             else \<lparr>total_bytes = 0, available_bytes = 0, MemoryStatus.valid = False\<rparr>))"
proof (intro conjI impI)
  show "sample_memory (Meminfo None)
      = \<lparr>total_bytes = 0, available_bytes = 0, MemoryStatus.valid = False\<rparr>"
    by (simp add: sample_memory_def)
next
  assume "''MemTotal:'' \<notin> set (map fst (meminfo_triples content))"
  then show "sample_memory (Meminfo (Some content))
      = \<lparr>total_bytes = 0, available_bytes = 0, MemoryStatus.valid = False\<rparr>"
    by (rule sample_memory_no_total)
next
  assume "count_list (map fst (meminfo_triples content)) ''MemTotal:'' \<le> 1
    \<and> count_list (map fst (meminfo_triples content)) ''MemAvailable:'' \<le> 1"
  then show "sample_memory (Meminfo (Some content)) =
      (if kilobytes ''MemTotal:'' (meminfo_triples content) * 1024 \<noteq> 0
       then \<lparr>total_bytes = kilobytes ''MemTotal:'' (meminfo_triples content) * 1024,
              available_bytes = kilobytes ''MemAvailable:'' (meminfo_triples content) * 1024,
              MemoryStatus.valid = True\<rparr>
       else \<lparr>total_bytes = 0, available_bytes = 0, MemoryStatus.valid = False\<rparr>)"
    using sample_memory_meminfo [of content] by blast
qed

text \<open>
  Claim C4, as stated, makes the result valid whenever a \<open>MemTotal:\<close> key was found.
  The code tests the value it stored, not whether the key was seen: a file that lists
  \<open>MemTotal:\<close> with the value 0 gives an invalid result.
\<close>

lemma get_triple_zero_total:
  "get_triple (''MemTotal: 0 kB'' @ [CHR 0x0A]) = Some ((''MemTotal:'', 0, ''kB''), [CHR 0x0A])"
  by (simp add: get_triple_def get_string_def get_u64_def isspace_def isdigit_def
      digits_value_def digit_value_def Let_def)

lemma get_triple_newline: "get_triple [CHR 0x0A] = None"
  by (simp add: get_triple_def get_string_def isspace_def)

theorem sample_memory_zero_total:
  "meminfo_triples (''MemTotal: 0 kB'' @ [CHR 0x0A]) = [(''MemTotal:'', 0, ''kB'')]
   \<and> sample_memory (Meminfo (Some (''MemTotal: 0 kB'' @ [CHR 0x0A])))
       = \<lparr>total_bytes = 0, available_bytes = 0, MemoryStatus.valid = False\<rparr>"
proof -
  have ts: "meminfo_triples (''MemTotal: 0 kB'' @ [CHR 0x0A]) = [(''MemTotal:'', 0, ''kB'')]"
    using meminfo_triples_next [OF get_triple_zero_total] meminfo_triples_end [OF get_triple_newline]
    by simp
  have "sample_memory (Meminfo (Some (''MemTotal: 0 kB'' @ [CHR 0x0A])))
      = \<lparr>total_bytes = 0, available_bytes = 0, MemoryStatus.valid = False\<rparr>"
    unfolding sample_memory_scan ts by (simp add: Let_def)
  with ts show ?thesis by (rule conjI)
qed

lemmas get_triple_eval = get_triple_def get_string_def get_u64_def isspace_def isdigit_def
  digits_value_def digit_value_def Let_def

theorem sample_memory_reads_meminfo_witness:
  "''MemTotal:'' \<notin> set (map fst (meminfo_triples ''MemFree: 5 kB\<newline>''))
   \<and> sample_memory (Meminfo (Some ''MemFree: 5 kB\<newline>''))
       = \<lparr>total_bytes = 0, available_bytes = 0, MemoryStatus.valid = False\<rparr>
   \<and> meminfo_triples
        ''MemTotal:       16316412 kB\<newline>MemFree:         1000 kB\<newline>MemAvailable:   12345 kB\<newline>''
       = [(''MemTotal:'', 16316412, ''kB''), (''MemFree:'', 1000, ''kB''),
          (''MemAvailable:'', 12345, ''kB'')]
   \<and> sample_memory
        (Meminfo (Some
          ''MemTotal:       16316412 kB\<newline>MemFree:         1000 kB\<newline>MemAvailable:   12345 kB\<newline>''))
       = \<lparr>total_bytes = 16708005888, available_bytes = 12641280, MemoryStatus.valid = True\<rparr>"
proof -
  let ?c = "''MemTotal:       16316412 kB\<newline>MemFree:         1000 kB\<newline>MemAvailable:   12345 kB\<newline>''"
  have e: "get_triple ''\<newline>'' = None"
    by (simp add: get_triple_eval)
  have "get_triple ''MemFree: 5 kB\<newline>'' = Some ((''MemFree:'', 5, ''kB''), ''\<newline>'')"
    by (simp add: get_triple_eval)
  from meminfo_triples_next [OF this] meminfo_triples_end [OF e]
  have free: "meminfo_triples ''MemFree: 5 kB\<newline>'' = [(''MemFree:'', 5, ''kB'')]"
    by simp
  have g1: "get_triple ?c = Some ((''MemTotal:'', 16316412, ''kB''),
      ''\<newline>MemFree:         1000 kB\<newline>MemAvailable:   12345 kB\<newline>'')"
    by (simp add: get_triple_eval)
  have g2: "get_triple ''\<newline>MemFree:         1000 kB\<newline>MemAvailable:   12345 kB\<newline>''
      = Some ((''MemFree:'', 1000, ''kB''), ''\<newline>MemAvailable:   12345 kB\<newline>'')"
    by (simp add: get_triple_eval)
  have g3: "get_triple ''\<newline>MemAvailable:   12345 kB\<newline>''
      = Some ((''MemAvailable:'', 12345, ''kB''), ''\<newline>'')"
    by (simp add: get_triple_eval)
  have ts: "meminfo_triples ?c = [(''MemTotal:'', 16316412, ''kB''), (''MemFree:'', 1000, ''kB''),
      (''MemAvailable:'', 12345, ''kB'')]"
    by (simp only: meminfo_triples_next [OF g1] meminfo_triples_next [OF g2]
        meminfo_triples_next [OF g3] meminfo_triples_end [OF e])
  have h1: "''MemTotal:'' \<notin> set (map fst (meminfo_triples ''MemFree: 5 kB\<newline>''))"
    by (simp add: free)
  have h2: "count_list (map fst (meminfo_triples ?c)) ''MemTotal:'' \<le> 1
      \<and> count_list (map fst (meminfo_triples ?c)) ''MemAvailable:'' \<le> 1"
    by (simp add: ts)
  from sample_memory_reads_meminfo [of "''MemFree: 5 kB\<newline>''"] h1
  have r1: "sample_memory (Meminfo (Some ''MemFree: 5 kB\<newline>''))
      = \<lparr>total_bytes = 0, available_bytes = 0, MemoryStatus.valid = False\<rparr>"
    by blast
  from sample_memory_reads_meminfo [of ?c] h2
  have "sample_memory (Meminfo (Some ?c)) =
      (if kilobytes ''MemTotal:'' (meminfo_triples ?c) * 1024 \<noteq> 0
       then \<lparr>total_bytes = kilobytes ''MemTotal:'' (meminfo_triples ?c) * 1024,
              available_bytes = kilobytes ''MemAvailable:'' (meminfo_triples ?c) * 1024,
              MemoryStatus.valid = True\<rparr>
       else \<lparr>total_bytes = 0, available_bytes = 0, MemoryStatus.valid = False\<rparr>)"
    by blast
  then have r2: "sample_memory (Meminfo (Some ?c))
      = \<lparr>total_bytes = 16708005888, available_bytes = 12641280, MemoryStatus.valid = True\<rparr>"
    by (simp add: ts kilobytes_def)
  from h1 r1 ts r2 show ?thesis
    by (intro conjI)
qed

subsection \<open>Valid and invalid results\<close>












subsection \<open>Uptime\<close>

lemma uptime_seconds_unopened: "uptime_seconds None = 0"
  by (simp add: uptime_seconds_def)

lemma u64_of_double_zero: "u64_of_double (Finite 0) = 0"
  by (simp add: u64_of_double_def truncate_def)

lemma get_double_no_number:
  assumes "\<not> starts_number content"
  shows "get_double content = Failed None \<or> get_double content = Failed (Some (Finite 0))"
proof (cases "dropWhile isspace content = []")
  case True
  then show ?thesis
    by (simp add: get_double_def)
next
  case False
  define s1 where "s1 = dropWhile isspace content"
  define s2 where "s2 = (if hd s1 = CHR ''-'' \<or> hd s1 = CHR ''+'' then tl s1 else s1)"
  have ne: "s1 \<noteq> []"
    using False by (simp add: s1_def)
  from assms ne have no: "s2 = [] \<or> \<not> isdigit (hd s2)
      \<and> \<not> (hd s2 = CHR ''.'' \<and> tl s2 \<noteq> [] \<and> isdigit (hd (tl s2)))"
    unfolding starts_number_def Let_def s1_def [symmetric] s2_def by auto
  then have ip: "takeWhile isdigit s2 = []"
    by (auto simp: takeWhile_eq_Nil_iff)
  from no have s3: "dropWhile isdigit s2 = s2"
    by (cases s2) auto
  have fp: "takeWhile isdigit (tl s2) = []" if "s2 \<noteq> []" "hd s2 = CHR ''.''"
    using no that by (auto simp: takeWhile_eq_Nil_iff)
  have "get_double content = Failed (Some (Finite 0))"
    unfolding get_double_def Let_def s1_def [symmetric] s2_def [symmetric] ip s3
    using ne fp by simp
  then show ?thesis ..
qed

lemma uptime_seconds_no_number:
  assumes "\<not> starts_number content"
  shows "uptime_seconds (Some content) = 0"
  using get_double_no_number [OF assms]
  by (auto simp: uptime_seconds_def u64_of_double_zero)

lemma truncate_range:
  assumes "- 1 < v" and "v < 2 ^ 64"
  shows "0 \<le> truncate v" and "truncate v < 2 ^ 64"
proof -
  show "0 \<le> truncate v"
    using assms(1) by (simp add: truncate_def)
  have "\<lfloor>v\<rfloor> < 2 ^ 64"
    using assms(2) by (simp add: floor_less_iff)
  moreover have "\<lceil>v\<rceil> \<le> 0" if "\<not> 0 \<le> v"
    using that by (simp add: ceiling_le_iff)
  ultimately show "truncate v < 2 ^ 64"
    by (auto simp: truncate_def)
qed

lemma u64_of_double_in_range:
  assumes "- 1 < v" and "v < 2 ^ 64"
  shows "u64_of_double (Finite v) = of_int (truncate v)"
proof -
  note t = truncate_range [OF assms]
  have "- (2 ^ 63) \<le> (0::int)"
    by simp
  with t(1) have "- (2 ^ 63) \<le> truncate v"
    by (rule order_trans [rotated])
  with t(2) show ?thesis
    by (simp add: u64_of_double_def Let_def)
qed

lemma two_digits_props:
  assumes "f < 100"
  shows "list_all isdigit (two_digits f)" and "length (two_digits f) = 2"
    and "digits_value (ds @ two_digits f) = 100 * digits_value ds + f"
proof -
  have d: "f div 10 < 10" "f mod 10 < 10"
    using assms by simp_all
  show "list_all isdigit (two_digits f)"
    using d by (simp add: two_digits_def digit_char_props)
  show "length (two_digits f) = 2"
    by (simp add: two_digits_def)
  have "digits_value (ds @ two_digits f) = digits_value ((ds @ [digit_char (f div 10)]) @ [digit_char (f mod 10)])"
    by (simp add: two_digits_def)
  also have "\<dots> = 10 * (10 * digits_value ds + f div 10) + f mod 10"
    using d by (simp only: digits_value_snoc digit_char_props)
  finally show "digits_value (ds @ two_digits f) = 100 * digits_value ds + f"
    by simp
qed

text \<open>The text the kernel writes: whole seconds, a point and two digits.\<close>

lemma get_double_centis:
  assumes "f < 100" and "rest = [] \<or> isspace (hd rest)"
  shows "get_double (dec n @ ''.'' @ two_digits f @ rest)
    = store_double (decimal_value False (dec n) (two_digits f) False []) rest"
proof -
  define r where "r = ''.'' @ two_digits f @ rest"
  have r: "r \<noteq> []" "hd r = CHR ''.''" "tl r = two_digits f @ rest"
    by (simp_all add: r_def)
  let ?c = "dec n @ r"
  have ne: "?c \<noteq> []"
    using dec_not_empty [of n] by simp
  have hd: "hd ?c = hd (dec n)"
    using dec_not_empty [of n] by simp
  have "\<not> isspace (hd (dec n))"
    using hd_dec_digit [of n] isdigit_not_space by blast
  then have "\<not> isspace (hd ?c)"
    unfolding hd .
  then have s1: "dropWhile isspace ?c = ?c"
    using ne by (cases ?c) simp_all
  have "hd (dec n) \<noteq> CHR ''-'' \<and> hd (dec n) \<noteq> CHR ''+''"
    using hd_dec_digit [of n] isdigit_not_sign by blast
  then have sign: "hd ?c \<noteq> CHR ''-''" "hd ?c \<noteq> CHR ''+''"
    unfolding hd by blast+
  have "\<not> isdigit (hd r)"
    by (simp add: r isdigit_def)
  then have "r = [] \<or> \<not> isdigit (hd r)"
    by simp
  from takeWhile_digits [OF dec_digits this]
  have ip: "takeWhile isdigit ?c = dec n" "dropWhile isdigit ?c = r"
    by simp_all
  have m: "rest = [] \<or> \<not> isdigit (hd rest)"
    using assms(2) isdigit_not_space by blast
  have fp: "takeWhile isdigit (two_digits f @ rest) = two_digits f"
    "dropWhile isdigit (two_digits f @ rest) = rest"
    using takeWhile_digits [OF two_digits_props(1) [OF assms(1)] m] by simp_all
  have e: "\<not> (rest \<noteq> [] \<and> (hd rest = CHR ''e'' \<or> hd rest = CHR ''E''))"
    using assms(2) by (auto simp: isspace_def)
  have t: "two_digits f \<noteq> []"
    by (simp add: two_digits_def)
  have "get_double ?c = store_double (decimal_value False (dec n) (two_digits f) False []) rest"
  proof (cases "rest = []")
    case True
    have fpn: "takeWhile isdigit (two_digits f) = two_digits f"
      "dropWhile isdigit (two_digits f) = []"
      using fp unfolding True by simp_all
    show ?thesis
      unfolding get_double_def s1 Let_def
      using ne sign dec_not_empty [of n] t True by (simp add: ip r fpn)
  next
    case False
    with e have "hd rest \<noteq> CHR ''e''" "hd rest \<noteq> CHR ''E''"
      by simp_all
    then show ?thesis
      unfolding get_double_def s1 Let_def
      using ne sign dec_not_empty [of n] t False by (simp add: ip r fp)
  qed
  then show ?thesis
    by (simp only: r_def)
qed

lemma decimal_value_centis:
  assumes "f < 100"
  shows "decimal_value False (dec n) (two_digits f) False [] = of_nat n + of_nat f / 100"
proof -
  have "digits_value [] = 0"
    by (simp add: digits_value_def)
  then show ?thesis
    using two_digits_props(2) [OF assms] two_digits_props(3) [OF assms, of "dec n"]
    by (simp add: decimal_value_def Let_def digits_value_dec add_divide_distrib)
qed

lemma round_finite_centis:
  assumes "n < 2 ^ 46" and "f < 100"
  shows "of_nat n \<le> round_finite (of_nat n + of_nat f / 100)"
    and "round_finite (of_nat n + of_nat f / 100) < of_nat n + 1"
proof -
  let ?x = "of_nat n + of_nat f / 100 :: rat"
  have "f \<le> 99"
    using assms(2) by simp
  then have "(of_nat f :: rat) \<le> of_nat 99"
    by (simp only: of_nat_le_iff)
  then have f: "(of_nat f :: rat) \<le> 99"
    by simp
  have "(of_nat n :: rat) < of_nat (2 ^ 46)"
    using assms(1) by (simp only: of_nat_less_iff)
  then have n: "(of_nat n :: rat) < 2 ^ 46"
    by simp
  have x0: "0 \<le> ?x" by simp
  have xn: "of_nat n \<le> ?x" by simp
  have x1: "?x \<le> of_nat n + 99 / 100" using f by simp
  have x47: "\<bar>?x\<bar> < 2 powi 47" using n x1 x0 by simp
  show "of_nat n \<le> round_finite ?x"
  proof (cases "?x = 0")
    case True
    with xn show ?thesis by (simp add: round_finite_def)
  next
    case False
    from ulp_exponent_le [OF False x47] have "ulp_exponent ?x \<le> 0" by simp
    from round_finite_ge_grid [of "int n" 0 ?x, OF _ this] xn show ?thesis by simp
  qed
  show "round_finite ?x < of_nat n + 1"
  proof (cases "?x = 0")
    case True
    then show ?thesis by (simp add: round_finite_def)
  next
    case False
    from ulp_exponent_le [OF False x47] have "ulp_exponent ?x \<le> - 6" by simp
    then have "(2::rat) powi ulp_exponent ?x \<le> 2 powi (- 6)"
      by (intro power_int_increasing) simp_all
    then have u: "(2::rat) powi ulp_exponent ?x / 2 \<le> 1 / 128"
      by (simp add: power_int_minus)
    have "\<bar>round_finite ?x - ?x\<bar> \<le> 2 powi ulp_exponent ?x / 2"
      by (rule round_finite_error)
    with u have "round_finite ?x \<le> ?x + 1 / 128"
      by linarith
    with x1 show ?thesis by linarith
  qed
qed

lemma uptime_seconds_centis:
  assumes "n < 2 ^ 46" and "f < 100" and "rest = [] \<or> isspace (hd rest)"
  shows "uptime_seconds (Some (dec n @ ''.'' @ two_digits f @ rest)) = of_nat n"
proof -
  let ?x = "of_nat n + of_nat f / 100 :: rat"
  have "(of_nat n :: rat) < of_nat (2 ^ 46)"
    using assms(1) by (simp only: of_nat_less_iff)
  then have n: "(of_nat n :: rat) < 2 ^ 46"
    by simp
  note r = round_finite_centis [OF assms(1,2)]
  have x0: "0 \<le> ?x" by simp
  have "?x \<le> of_nat n + 1"
    using assms(2) by simp
  with n have x47: "?x \<le> 2 ^ 47" by simp
  have rd: "round_double ?x = Finite (round_finite ?x)"
    by (rule round_double_finite [OF x0 x47]) simp
  have gd: "get_double (dec n @ ''.'' @ two_digits f @ rest) = Extracted (Finite (round_finite ?x)) rest"
    unfolding get_double_centis [OF assms(2,3)] decimal_value_centis [OF assms(2)]
    by (simp add: store_double_def rd)
  have r0: "0 \<le> round_finite ?x"
    using r(1) of_nat_0_le_iff [of n, where ?'a = rat] by linarith
  have "\<lfloor>round_finite ?x\<rfloor> = int n"
    using r by (intro floor_unique) simp_all
  then have tr: "truncate (round_finite ?x) = int n"
    using r0 by (simp add: truncate_def)
  have lo: "- 1 < round_finite ?x"
    using r0 by linarith
  have "round_finite ?x < of_nat n + 1"
    by (rule r(2))
  also have "\<dots> \<le> 2 ^ 46"
    using assms(1) of_nat_mono [of "n + 1" "2 ^ 46", where ?'a = rat] by simp
  also have "\<dots> < (2::rat) ^ 64"
    by simp
  finally have hi: "round_finite ?x < 2 ^ 64" .
  show ?thesis
    unfolding uptime_seconds_def option.case gd extraction.case Let_def
    by (simp add: u64_of_double_in_range [OF lo hi] tr)
qed

lemma get_double_decimal:
  assumes "list_all isspace ws" and "sg = [] \<or> sg = ''+'' \<or> sg = ''-''"
    and "list_all isdigit ip" and "list_all isdigit fp" and "ip @ fp \<noteq> []"
    and "tail = [] \<or> isspace (hd tail)"
  shows "get_double (ws @ sg @ ip @ ''.'' @ fp @ tail)
    = store_double (decimal_value (sg = ''-'') ip fp False []) tail"
proof -
  define r where "r = ip @ ''.'' @ fp @ tail"
  define body where "body = sg @ r"
  have r: "r \<noteq> []"
    by (simp add: r_def)
  have hr: "isdigit (hd r) \<or> hd r = CHR ''.''"
    using assms(3) by (cases ip) (simp_all add: r_def)
  then have r_sign: "hd r \<noteq> CHR ''-''" "hd r \<noteq> CHR ''+''"
    using isdigit_not_sign [of "hd r"] by auto
  from hr have r_space: "\<not> isspace (hd r)"
    using isdigit_not_space [of "hd r"] by (auto simp: isspace_def)
  have body: "body \<noteq> []"
    using r by (simp add: body_def)
  have "\<not> isspace (hd body)"
    using assms(2) r r_space by (auto simp: body_def isspace_def)
  with body have "body = [] \<or> \<not> isspace (hd body)"
    by simp
  from dropWhile_spaces [OF assms(1) this]
  have s1: "dropWhile isspace (ws @ body) = body" .
  have neg: "(hd body = CHR ''-'') = (sg = ''-'')"
    using assms(2) r r_sign by (auto simp: body_def)
  have s2: "(if sg = ''-'' \<or> hd body = CHR ''+'' then tl body else body) = r"
    using assms(2) r r_sign by (auto simp: body_def)
  have "\<not> isdigit (hd (''.'' @ fp @ tail))"
    by (simp add: isdigit_def)
  then have "''.'' @ fp @ tail = [] \<or> \<not> isdigit (hd (''.'' @ fp @ tail))"
    by simp
  from takeWhile_digits [OF assms(3) this]
  have ip: "takeWhile isdigit r = ip" "dropWhile isdigit r = ''.'' @ fp @ tail"
    by (simp_all add: r_def)
  have p: "hd (''.'' @ fp @ tail) = CHR ''.''" "tl (''.'' @ fp @ tail) = fp @ tail"
    "''.'' @ fp @ tail \<noteq> []"
    by simp_all
  have m: "tail = [] \<or> \<not> isdigit (hd tail)"
    using assms(6) isdigit_not_space by blast
  have fp: "takeWhile isdigit (fp @ tail) = fp" "dropWhile isdigit (fp @ tail) = tail"
    using takeWhile_digits [OF assms(4) m] by simp_all
  have e: "\<not> (tail \<noteq> [] \<and> (hd tail = CHR ''e'' \<or> hd tail = CHR ''E''))"
    using assms(6) by (auto simp: isspace_def)
  have n: "\<not> (ip = [] \<and> fp = [])"
    using assms(5) by simp
  have "get_double (ws @ body)
      = store_double (decimal_value (sg = ''-'') ip fp False []) tail"
    unfolding get_double_def s1 Let_def
    unfolding neg
    unfolding s2 ip p fp
    using body n e by auto
  then show ?thesis
    by (simp only: body_def r_def)
qed

lemma decimal_value_plain:
  "decimal_value (sg = ''-'') ip fp False []
     = (if sg = ''-'' then - 1 else 1) * of_nat (digits_value (ip @ fp)) / 10 ^ length fp"
proof -
  have "digits_value [] = 0"
    by (simp add: digits_value_def)
  then show ?thesis
    by (simp add: decimal_value_def Let_def)
qed

lemma uptime_seconds_decimal:
  assumes "list_all isspace ws" and "sg = [] \<or> sg = ''+'' \<or> sg = ''-''"
    and "list_all isdigit ip" and "list_all isdigit fp" and "ip @ fp \<noteq> []"
    and "tail = [] \<or> isspace (hd tail)"
    and "round_double ((if sg = ''-'' then - 1 else 1) * of_nat (digits_value (ip @ fp))
           / 10 ^ length fp) = Finite v"
    and "- 1 < v" and "v < 2 ^ 64"
  shows "uptime_seconds (Some (ws @ sg @ ip @ ''.'' @ fp @ tail)) = of_int (truncate v)"
proof -
  have "get_double (ws @ sg @ ip @ ''.'' @ fp @ tail) = Extracted (Finite v) tail"
    unfolding get_double_decimal [OF assms(1-6)] decimal_value_plain store_double_def assms(7)
    by simp
  then show ?thesis
    unfolding uptime_seconds_def option.case Let_def
    by (simp add: u64_of_double_in_range [OF assms(8,9)])
qed

lemma round_double_int_exact:
  assumes "\<bar>k\<bar> < 2 ^ 53"
  shows "round_double (of_int k) = Finite (of_int k)"
proof -
  let ?x = "of_int k :: rat"
  have "(of_int \<bar>k\<bar> :: rat) < of_int (2 ^ 53)"
    using assms by (simp only: of_int_less_iff)
  then have lt: "\<bar>?x\<bar> < 2 ^ 53"
    by simp
  have ex: "round_finite ?x = ?x"
  proof (cases "k = 0")
    case True
    then show ?thesis by (simp add: round_finite_def)
  next
    case False
    then have "?x \<noteq> 0" by simp
    moreover have "\<bar>?x\<bar> < 2 powi 53" using lt by simp
    ultimately have "ulp_exponent ?x \<le> 0"
      using ulp_exponent_le [of ?x 53] by simp
    moreover have "?x = of_int k * 2 powi 0" by simp
    ultimately show ?thesis by (rule round_finite_exact [rotated])
  qed
  have "(2::rat) ^ 53 < 2 ^ 1024"
    by (rule power_strict_increasing) simp_all
  with lt have "\<bar>?x\<bar> < overflow_threshold"
    unfolding overflow_threshold_power by (rule less_trans)
  then show ?thesis
    by (simp add: round_double_def Let_def ex)
qed

lemmas get_double_eval = get_double_def decimal_value_def store_double_def isspace_def isdigit_def
  digits_value_def digit_value_def Let_def

lemma round_double_overflow:
  assumes "2 ^ 1024 \<le> x"
  shows "round_double x = Infinity False"
proof -
  have x: "0 < x" "\<bar>x\<bar> = x"
    using assms zero_less_power [of "2::rat" 1024] by linarith+
  have "(2::rat) powi 1024 \<le> x"
    using assms by simp
  then have fl: "1024 \<le> floor_log2 x"
    by (rule floor_log2_ge)
  then have "ulp_exponent x \<le> floor_log2 x"
    by (simp add: ulp_exponent_def x)
  moreover have "of_int 1 * 2 powi floor_log2 x \<le> x"
    using floor_log2_bounds(1) [OF x(1)] by simp
  ultimately have "of_int 1 * 2 powi floor_log2 x \<le> round_finite x"
    by (rule round_finite_ge_grid [rotated])
  moreover have "(2::rat) powi 1024 \<le> 2 powi floor_log2 x"
    using fl by (intro power_int_increasing) simp_all
  ultimately have "overflow_threshold \<le> round_finite x"
    by (simp add: overflow_threshold_power)
  moreover from this have "0 \<le> round_finite x"
    using zero_less_power [of "2::rat" 1024] by (simp add: overflow_threshold_power)
  ultimately show ?thesis
    using x(1) by (simp add: round_double_def Let_def)
qed

lemma round_double_neg_overflow:
  assumes "x \<le> - (2 ^ 1024)"
  shows "round_double x = Infinity True"
proof -
  have p: "(0::rat) < 2 ^ 1024"
    by (rule zero_less_power) simp
  have x: "x < 0" "\<bar>x\<bar> = - x" "0 < \<bar>x\<bar>"
    using assms p by linarith+
  have "(2::rat) powi 1024 \<le> \<bar>x\<bar>"
    using assms x(2) by simp
  then have fl: "1024 \<le> floor_log2 \<bar>x\<bar>"
    by (rule floor_log2_ge)
  then have u: "ulp_exponent x \<le> floor_log2 \<bar>x\<bar>"
    by (simp add: ulp_exponent_def)
  have "2 powi floor_log2 \<bar>x\<bar> \<le> \<bar>x\<bar>"
    using floor_log2_bounds(1) [OF x(3)] .
  then have "x \<le> of_int (- 1) * 2 powi floor_log2 \<bar>x\<bar>"
    using x(2) by simp
  from round_finite_le_grid [OF this u]
  have le: "round_finite x \<le> - (2 powi floor_log2 \<bar>x\<bar>)"
    by simp
  have "(2::rat) powi 1024 \<le> 2 powi floor_log2 \<bar>x\<bar>"
    using fl by (intro power_int_increasing) simp_all
  with le have "round_finite x \<le> - overflow_threshold"
    by (simp add: overflow_threshold_power)
  moreover have "0 < overflow_threshold"
    using p by (simp add: overflow_threshold_power)
  ultimately have "overflow_threshold \<le> \<bar>round_finite x\<bar>"
    by linarith
  then show ?thesis
    using x(1) by (simp add: round_double_def Let_def)
qed

lemma u64_of_double_above:
  assumes "2 ^ 64 \<le> v"
  shows "u64_of_double (Finite v) = 0"
proof -
  have v: "0 \<le> v"
    using order_trans [OF _ assms, of 0] by simp
  from assms have "(of_int (2 ^ 64) :: rat) \<le> v"
    by simp
  then have "2 ^ 64 \<le> \<lfloor>v\<rfloor>"
    by (simp only: le_floor_iff)
  with v have t: "2 ^ 64 \<le> truncate v"
    by (simp add: truncate_def)
  have "(0::int) < 2 ^ 64"
    by simp
  with t have "0 < truncate v" "\<not> truncate v < 2 ^ 64"
    by linarith+
  then show ?thesis
    by (simp add: u64_of_double_def Let_def)
qed

lemma u64_of_double_below:
  assumes "v \<le> - (2 ^ 64)"
  shows "u64_of_double (Finite v) = 2 ^ 63"
proof -
  have v: "v < 0"
    using le_less_trans [OF assms, of 0] by simp
  from assms have "v \<le> of_int (- (2 ^ 64))"
    by simp
  then have "\<lceil>v\<rceil> \<le> - (2 ^ 64)"
    by (simp only: ceiling_le_iff)
  with v have t: "truncate v \<le> - (2 ^ 64)"
    by (simp add: truncate_def)
  have "- (2 ^ 64) < - (2 ^ 63 :: int)" "- (2 ^ 63) < (0::int)"
    by simp_all
  with t have "truncate v < 0" "\<not> - (2 ^ 63) \<le> truncate v"
    by linarith+
  then show ?thesis
    by (simp add: u64_of_double_def Let_def)
qed

lemma max_double_large: "2 ^ 64 \<le> max_double"
  by (simp add: max_double_def)

lemma get_double_overflowing:
  "get_double ''1e309'' = Failed (Some (Finite max_double))"
  "get_double ''-1e309'' = Failed (Some (Finite (- max_double)))"
proof -
  have "(2::rat) ^ 1024 \<le> 10 ^ 309"
    by simp
  then have r: "round_double (10 ^ 309) = Infinity False"
    by (rule round_double_overflow)
  have "- (10 ^ 309) \<le> - ((2::rat) ^ 1024)"
    by simp
  then have s: "round_double (- (10 ^ 309)) = Infinity True"
    by (rule round_double_neg_overflow)
  have d: "decimal_value False ''1'' [] False ''309'' = 10 ^ 309"
    "decimal_value True ''1'' [] False ''309'' = - (10 ^ 309)"
    by (simp_all add: decimal_value_def digits_value_def digit_value_def Let_def)
  have "get_double ''1e309'' = store_double (decimal_value False ''1'' [] False ''309'') []"
    by (simp add: get_double_def isspace_def isdigit_def Let_def)
  then show "get_double ''1e309'' = Failed (Some (Finite max_double))"
    unfolding d store_double_def r by simp
  have "get_double ''-1e309'' = store_double (decimal_value True ''1'' [] False ''309'') []"
    by (simp add: get_double_def isspace_def isdigit_def Let_def)
  then show "get_double ''-1e309'' = Failed (Some (Finite (- max_double)))"
    unfolding d store_double_def s by simp
qed

lemma uptime_seconds_overflowing:
  "uptime_seconds (Some ''1e309'') = 0"
  "uptime_seconds (Some ''-1e309'') = 9223372036854775808"
proof -
  have "- max_double \<le> - (2 ^ 64)"
    using max_double_large by simp
  from u64_of_double_below [OF this] u64_of_double_above [OF max_double_large]
  show "uptime_seconds (Some ''1e309'') = 0"
    "uptime_seconds (Some ''-1e309'') = 9223372036854775808"
    unfolding uptime_seconds_def option.case get_double_overflowing extraction.case Let_def
    by simp_all
qed

lemma get_double_1e30:
  "get_double ''1e30'' = Extracted (Finite 1000000000000000019884624838656) []"
proof -
  have h: "round_half_even (1000000000000000000000000000000 / 2 powi (99 - 52)) = 7105427357601002"
    by (rule round_half_even_eqI) simp_all
  have r: "round_double 1000000000000000000000000000000 = Finite 1000000000000000019884624838656"
    using round_double_eval [OF _ _ _ _ _ h] by simp
  have d: "decimal_value False ''1'' [] False ''30'' = 1000000000000000000000000000000"
    by (simp add: decimal_value_def digits_value_def digit_value_def Let_def)
  have "get_double ''1e30'' = store_double (decimal_value False ''1'' [] False ''30'') []"
    by (simp add: get_double_def isspace_def isdigit_def Let_def)
  then show ?thesis
    unfolding d store_double_def r by simp
qed

lemma uptime_seconds_1e30: "uptime_seconds (Some ''1e30'') = 0"
proof -
  have "(2::rat) ^ 64 \<le> 1000000000000000019884624838656"
    by simp
  from u64_of_double_above [OF this] show ?thesis
    unfolding uptime_seconds_def option.case get_double_1e30 extraction.case Let_def
    by simp
qed

lemma get_double_minus_5: "get_double ''-5'' = Extracted (Finite (- 5)) []"
proof -
  have "round_double (- 5) = Finite (- 5)"
    using round_double_int_exact [of "- 5"] by simp
  then show ?thesis
    by (simp add: get_double_eval)
qed

lemma uptime_seconds_minus_5: "uptime_seconds (Some ''-5'') = 18446744073709551611"
  unfolding uptime_seconds_def option.case get_double_minus_5 extraction.case Let_def
  by (simp add: u64_of_double_def truncate_def)

lemma uptime_seconds_exponent:
  "uptime_seconds (Some ''1e3 x'') = 1000" "uptime_seconds (Some ''12e'') = 0"
proof -
  have "round_double 1000 = Finite 1000"
    using round_double_int_exact [of 1000] by simp
  then have g: "get_double ''1e3 x'' = Extracted (Finite 1000) '' x''"
    by (simp add: get_double_eval)
  have "u64_of_double (Finite 1000) = of_int (truncate 1000)"
    by (rule u64_of_double_in_range) simp_all
  then show "uptime_seconds (Some ''1e3 x'') = 1000"
    unfolding uptime_seconds_def option.case g extraction.case Let_def
    by (simp add: truncate_def)
  have "get_double ''12e'' = Failed (Some (Finite 0))"
    by (simp add: get_double_def isspace_def isdigit_def Let_def)
  then show "uptime_seconds (Some ''12e'') = 0"
    by (simp add: uptime_seconds_def u64_of_double_zero)
qed

text \<open>
  Claim C8, as stated, returns 0 on every read error and otherwise the first field
  truncated to whole seconds. A field too large in magnitude for a double is a read
  error (\<open>failbit\<close>) that stores the largest finite value with the sign of the field: for
  \<open>-1e309\<close> the result is \<open>2 ^ 63\<close>, not 0. A field that is read without error
  is not truncated when it does not fit: \<open>1e30\<close> gives 0 and \<open>-5\<close> gives
  \<open>2 ^ 64 - 5\<close>.
\<close>

theorem uptime_seconds_not_truncated:
  "get_double ''-1e309'' = Failed (Some (Finite (- max_double)))
   \<and> uptime_seconds (Some ''-1e309'') = 9223372036854775808
   \<and> get_double ''1e30'' = Extracted (Finite 1000000000000000019884624838656) []
   \<and> uptime_seconds (Some ''1e30'') = 0
   \<and> get_double ''-5'' = Extracted (Finite (- 5)) []
   \<and> uptime_seconds (Some ''-5'') = 18446744073709551611"
  using get_double_overflowing(2) uptime_seconds_overflowing(2) get_double_1e30
    uptime_seconds_1e30 get_double_minus_5 uptime_seconds_minus_5
  by (intro conjI)

text \<open>
  Claim C8, amended. \<open>uptime_seconds\<close> returns a number for every source: the function
  has no failing path. It returns 0 when the file cannot be opened and when the text does
  not start with a number. When the text starts with a decimal field, that is optional
  white space, an optional sign, digits, a point and digits, ended by white space or by
  the end of the text, and the binary64 value \<open>v\<close> of the field satisfies
  \<open>- 1 < v < 2 ^ 64\<close>, it returns \<open>v\<close> without its fraction. In particular, for the
  text the kernel writes, \<open>n\<close> seconds with \<open>n < 2 ^ 46\<close>, a point and two digits, it
  returns \<open>n\<close>. An exponent is read as part of the field: the text \<open>1e3 x\<close> gives
  1000, and the text \<open>12e\<close>, whose exponent has no digit, is a read error that gives 0.
\<close>

theorem uptime_seconds_truncates:
  "uptime_seconds None = 0
   \<and> (\<not> starts_number content \<longrightarrow> uptime_seconds (Some content) = 0)
   \<and> (list_all isspace ws \<and> (sg = [] \<or> sg = ''+'' \<or> sg = ''-'')
        \<and> list_all isdigit ip \<and> list_all isdigit fp \<and> ip @ fp \<noteq> []
        \<and> (tail = [] \<or> isspace (hd tail))
        \<and> round_double ((if sg = ''-'' then - 1 else 1) * of_nat (digits_value (ip @ fp))
             / 10 ^ length fp) = Finite v
        \<and> - 1 < v \<and> v < 2 ^ 64
      \<longrightarrow> uptime_seconds (Some (ws @ sg @ ip @ ''.'' @ fp @ tail)) = of_int (truncate v))
   \<and> (n < 2 ^ 46 \<and> f < 100 \<and> (rest = [] \<or> isspace (hd rest))
      \<longrightarrow> uptime_seconds (Some (dec n @ ''.'' @ two_digits f @ rest)) = of_nat n)
   \<and> uptime_seconds (Some ''1e3 x'') = 1000
   \<and> uptime_seconds (Some ''12e'') = 0"
  using uptime_seconds_unopened uptime_seconds_no_number [of content]
    uptime_seconds_decimal [of ws sg ip fp tail v] uptime_seconds_centis [of n f rest]
    uptime_seconds_exponent
  by (intro conjI impI) blast+

theorem uptime_seconds_truncates_witness:
  "\<not> starts_number ''abc''
   \<and> uptime_seconds (Some ''abc'') = 0
   \<and> \<not> starts_number ''  -.x''
   \<and> uptime_seconds (Some ''  -.x'') = 0
   \<and> round_double ((if ''+'' = ''-'' then - 1 else 1) * of_nat (digits_value (''12'' @ ''5''))
         / 10 ^ length ''5'') = Finite (25 / 2)
   \<and> uptime_seconds (Some ''  +12.5 x'') = 12
   \<and> round_double ((if ''-'' = ''-'' then - 1 else 1) * of_nat (digits_value (''0'' @ ''0''))
         / 10 ^ length ''0'') = Finite 0
   \<and> uptime_seconds (Some ''-0.0'') = 0
   \<and> uptime_seconds (Some ''12345.67 54321.89\<newline>'') = 12345"
proof -
  have a: "\<not> starts_number ''abc''" "\<not> starts_number ''  -.x''"
    by (simp_all add: starts_number_def isspace_def isdigit_def)
  have dv: "digits_value (''12'' @ ''5'') = 125" "digits_value (''0'' @ ''0'') = 0"
    by (simp_all add: digits_value_def digit_value_def)
  have h1: "round_half_even (25 / 2 / 2 powi (3 - 52)) = 7036874417766400"
    by (rule round_half_even_eqI) simp_all
  have r1: "round_double (25 / 2) = Finite (25 / 2)"
    using round_double_eval [OF _ _ _ _ _ h1] by simp
  have r3: "round_double 0 = Finite 0"
    using round_double_int_exact [of 0] by simp
  have v1: "round_double ((if ''+'' = ''-'' then - 1 else 1) * of_nat (digits_value (''12'' @ ''5''))
      / 10 ^ length ''5'') = Finite (25 / 2)"
    unfolding dv using r1 by simp
  have v2: "round_double ((if ''-'' = ''-'' then - 1 else 1) * of_nat (digits_value (''0'' @ ''0''))
      / 10 ^ length ''0'') = Finite 0"
    unfolding dv using r3 by simp
  have "\<lfloor>25 / 2 :: rat\<rfloor> = 12"
    by (rule floor_unique) simp_all
  then have t: "truncate (25 / 2) = 12" "truncate 0 = 0"
    by (simp_all add: truncate_def)
  have c: "dec 12345 @ ''.'' @ two_digits 67 @ '' 54321.89\<newline>'' = ''12345.67 54321.89\<newline>''"
    by (simp add: dec.simps two_digits_def digit_char_def)
  have s: "isspace (hd '' 54321.89\<newline>'')" "isspace (hd '' x'')" "list_all isspace ''  ''"
    by (simp_all add: isspace_def)
  have d: "list_all isdigit ''12''" "list_all isdigit ''5''" "list_all isdigit ''0''"
    by (simp_all add: isdigit_def)
  from uptime_seconds_truncates [of "''abc''" "[]" "[]" "[]" "[]" "[]" 0 0 0 "[]"] a(1)
  have u1: "uptime_seconds (Some ''abc'') = 0"
    by blast
  from uptime_seconds_truncates [of "''  -.x''" "[]" "[]" "[]" "[]" "[]" 0 0 0 "[]"] a(2)
  have u2: "uptime_seconds (Some ''  -.x'') = 0"
    by blast
  from uptime_seconds_truncates [of "[]" "''  ''" "''+''" "''12''" "''5''" "'' x''" "25 / 2" 0 0 "[]"]
    s d v1
  have u3: "uptime_seconds (Some ''  +12.5 x'') = 12"
    by (simp add: t)
  from uptime_seconds_truncates [of "[]" "[]" "''-''" "''0''" "''0''" "[]" 0 0 0 "[]"]
    d v2
  have u4: "uptime_seconds (Some ''-0.0'') = 0"
    by (simp add: t)
  from uptime_seconds_truncates [of "[]" "[]" "[]" "[]" "[]" "[]" 0 12345 67 "'' 54321.89\<newline>''"] s
  have u5: "uptime_seconds (Some ''12345.67 54321.89\<newline>'') = 12345"
    unfolding c by simp
  from a(1) u1 a(2) u2 v1 u3 v2 u4 u5 show ?thesis
    by (intro conjI)
qed

end
